theory Spec2Isabelle
  imports Main
begin

section \<open>Strings: the Python string operations the two modules use\<close>

text \<open>
  A Python \<open>str\<close> is a \<^typ>\<open>string\<close>; a \<^typ>\<open>char\<close> stands for a code point below 256.
  \<open>str.strip()\<close> without argument removes the characters for which \<open>str.isspace\<close>
  holds from both ends; below 256 these are the twelve code points listed here.
\<close>

definition whitespace :: "char list" where
  "whitespace = [CHR 0x09, CHR 0x0A, CHR 0x0B, CHR 0x0C, CHR 0x0D,
                 CHR 0x1C, CHR 0x1D, CHR 0x1E, CHR 0x1F, CHR 0x20, CHR 0x85, CHR 0xA0]"

definition isspace :: "char \<Rightarrow> bool" where
  "isspace c = (c \<in> set whitespace)"

definition strip :: "string \<Rightarrow> string" where
  "strip s = rev (dropWhile isspace (rev (dropWhile isspace s)))"

text \<open>\<open>startswith p s\<close> is \<open>Some r\<close> when \<open>s = p + r\<close>, the way a regular expression
  consumes a literal.\<close>

fun startswith :: "string \<Rightarrow> string \<Rightarrow> string option" where
  "startswith [] s = Some s"
| "startswith (p # ps) [] = None"
| "startswith (p # ps) (c # cs) = (if p = c then startswith ps cs else None)"

text \<open>
  \<open>s.split(sep)\<close> for a non-empty separator: the string is cut at every occurrence of
  \<open>sep\<close>, found from the left and not overlapping; the result is never empty
  (\<open>"".split(",") == [""]\<close>). Python raises \<open>ValueError\<close> on an empty separator; both
  callers pass a literal, so that branch is not reachable and the model returns the
  string uncut there.
\<close>

function split :: "string \<Rightarrow> string \<Rightarrow> string list" where
  "split sep [] = [[]]"
| "split sep (c # cs) =
     (if sep \<noteq> [] \<and> startswith sep (c # cs) \<noteq> None
      then [] # split sep (drop (length sep) (c # cs))
      else (let r = split sep cs in (c # hd r) # tl r))"
  by pat_completeness auto
termination
  by (relation "measure (\<lambda>(sep, s). length s)") (auto simp: neq_Nil_conv)

text \<open>\<open>sep.join(xs)\<close>.\<close>

fun join :: "string \<Rightarrow> string list \<Rightarrow> string" where
  "join sep [] = []"
| "join sep [x] = x"
| "join sep (x # y # ys) = x @ sep @ join sep (y # ys)"

section \<open>\<open>api_access.py\<close>: access scopes\<close>

datatype api_error = ApiAccessError string

text \<open>
  The two regular expressions differ only in the alternatives of the verb:

  \<^verbatim>\<open>SCOPE_RE         = \A(?P<unauthenticated>unauthenticated_)?(write|read)_(?P<resource>.*)\Z\<close>

  \<^verbatim>\<open>IMPLIED_SCOPE_RE = \A(?P<unauthenticated>unauthenticated_)?write_(?P<resource>.*)\Z\<close>

  \<open>.\<close> matches every character but the newline (no \<open>DOTALL\<close> flag), so
  \<open>(.*)\Z\<close> matches the rest of the string exactly when it holds no newline, the empty
  rest included. The matcher tries the optional group first and falls back to skipping
  it, and tries the verbs in the order written. A match is returned as the pair of the
  groups \<open>unauthenticated\<close> (\<open>None\<close> when the group did not take part) and \<open>resource\<close>.
\<close>

definition resource_to_end :: "string \<Rightarrow> string option" where
  "resource_to_end r = (if CHR 0x0A \<in> set r then None else Some r)"

fun verb_resource :: "string list \<Rightarrow> string \<Rightarrow> string option" where
  "verb_resource [] s = None"
| "verb_resource (v # vs) s =
     (case Option.bind (startswith (v @ ''_'') s) resource_to_end of
        Some r \<Rightarrow> Some r
      | None \<Rightarrow> verb_resource vs s)"

definition scope_regex :: "string list \<Rightarrow> string \<Rightarrow> (string option \<times> string) option" where
  "scope_regex verbs s =
     (case Option.bind (startswith ''unauthenticated_'' s) (verb_resource verbs) of
        Some r \<Rightarrow> Some (Some ''unauthenticated_'', r)
      | None \<Rightarrow> (case verb_resource verbs s of
                   Some r \<Rightarrow> Some (None, r)
                 | None \<Rightarrow> None))"

definition SCOPE_RE :: "string \<Rightarrow> (string option \<times> string) option" where
  "SCOPE_RE = scope_regex [''write'', ''read'']"

definition IMPLIED_SCOPE_RE :: "string \<Rightarrow> (string option \<times> string) option" where
  "IMPLIED_SCOPE_RE = scope_regex [''write'']"

text \<open>
  \<open>_get_implied_scope\<close> returns a string or Python's \<open>None\<close>; the result type is
  \<^typ>\<open>string option\<close>, with \<^term>\<open>None :: string option\<close> for Python's \<open>None\<close>.
\<close>

definition get_implied_scope :: "string \<Rightarrow> string option" where
  "get_implied_scope scope =
     (case IMPLIED_SCOPE_RE scope of
        Some (unauthenticated, resource) \<Rightarrow>
          Some ((case unauthenticated of Some u \<Rightarrow> u | None \<Rightarrow> []) @ ''read_'' @ resource)
      | None \<Rightarrow> None)"

text \<open>
  \<open>_validate_scopes\<close> walks a frozenset. The order in which a frozenset is walked is
  not fixed by Python, so the walk is a list handed in by the caller: an enumeration
  \<open>enum S\<close> of the set, about which the theorems assume only \<^term>\<open>set (enum S) = S\<close>
  and \<^term>\<open>distinct (enum S)\<close>. The message of the error is the f-string of the source.
\<close>

definition enumerates :: "('a set \<Rightarrow> 'a list) \<Rightarrow> 'a set \<Rightarrow> bool" where
  "enumerates enum S = (set (enum S) = S \<and> distinct (enum S))"

definition invalid_scope_message :: "string \<Rightarrow> string" where
  "invalid_scope_message scope = [CHR 0x27] @ scope @ [CHR 0x27] @ '' is not a valid access scope''"

fun validate_scopes :: "string list \<Rightarrow> api_error + unit" where
  "validate_scopes [] = Inr ()"
| "validate_scopes (scope # scopes) =
     (if SCOPE_RE scope = None then Inl (ApiAccessError (invalid_scope_message scope))
      else validate_scopes scopes)"

text \<open>
  The object: its two frozensets. \<open>_compressed_scopes\<close> holds strings only;
  \<open>_expanded_scopes\<close> is the union with the results of \<open>_get_implied_scope\<close>, which may be
  \<open>None\<close>, so its elements are \<^typ>\<open>string option\<close> and a string \<open>s\<close> is the element
  \<^term>\<open>Some s\<close> there.
\<close>

record ApiAccess =
  compressed_scopes :: "string set"
  expanded_scopes :: "string option set"

text \<open>The generator \<open>filter(None, (scope.strip() for scope in scopes))\<close>: the trimmed
  entries, the empty ones dropped.\<close>

definition sanitize :: "string list \<Rightarrow> string list" where
  "sanitize scopes = filter (\<lambda>s. s \<noteq> []) (map strip scopes)"

definition store_scopes :: "(string set \<Rightarrow> string list) \<Rightarrow> string list \<Rightarrow> api_error + ApiAccess" where
  "store_scopes enum scopes =
     (let sanitized_scopes = set (sanitize scopes) in
      case validate_scopes (enum sanitized_scopes) of
        Inl e \<Rightarrow> Inl e
      | Inr _ \<Rightarrow>
          (let implied_scopes = get_implied_scope ` sanitized_scopes in
           Inr \<lparr> compressed_scopes = {s \<in> sanitized_scopes. Some s \<notin> implied_scopes},
                 expanded_scopes = Some ` sanitized_scopes \<union> implied_scopes \<rparr>))"

text \<open>The argument of the constructor: one string, cut at \<open>SCOPE_DELIMITER\<close>, or a
  collection of strings.\<close>

datatype scopes_arg = Str string | Coll "string list"

definition SCOPE_DELIMITER :: string where
  "SCOPE_DELIMITER = '',''"

fun entries :: "scopes_arg \<Rightarrow> string list" where
  "entries (Str s) = split SCOPE_DELIMITER s"
| "entries (Coll xs) = xs"

declare entries.simps [simp del]

definition ApiAccess_init :: "(string set \<Rightarrow> string list) \<Rightarrow> scopes_arg \<Rightarrow> api_error + ApiAccess" where
  "ApiAccess_init enum scopes = store_scopes enum (entries scopes)"

definition covers :: "ApiAccess \<Rightarrow> ApiAccess \<Rightarrow> bool" where
  "covers self api_access = (Some ` compressed_scopes api_access \<subseteq> expanded_scopes self)"

text \<open>\<open>__str__\<close> joins the compressed scopes in the order the frozenset is walked.\<close>

definition ApiAccess_str :: "(string set \<Rightarrow> string list) \<Rightarrow> ApiAccess \<Rightarrow> string" where
  "ApiAccess_str enum self = join SCOPE_DELIMITER (enum (compressed_scopes self))"

definition ApiAccess_eq :: "ApiAccess \<Rightarrow> ApiAccess \<Rightarrow> bool" where
  "ApiAccess_eq self other = (compressed_scopes self = compressed_scopes other)"

text \<open>The pattern as the specification writes it,
  \<^verbatim>\<open>^(unauthenticated_)?(write|read)_(.+)$\<close>: the resource is not empty.\<close>

definition spec_scope_pattern :: "string \<Rightarrow> bool" where
  "spec_scope_pattern s =
     (case SCOPE_RE s of Some (u, resource) \<Rightarrow> resource \<noteq> [] | None \<Rightarrow> False)"

section \<open>\<open>collection.py\<close>: cursor-based pagination\<close>

subsection \<open>Exceptions and the metadata dictionary\<close>

text \<open>
  The exceptions that the module raises itself (\<open>IndexError("No next page")\<close>,
  \<open>AttributeError\<close>, \<open>TypeError\<close>), those that the interpreter raises inside it
  (\<open>ValueError\<close> on a failed unpacking, \<open>IndexError\<close> and \<open>KeyError\<close> on a failed
  subscript, \<open>RecursionError\<close>), and \<open>Other\<close> for whatever else the collaborator raises.
\<close>

datatype exn =
    IndexError string
  | AttributeError string
  | TypeError string
  | KeyError string
  | ValueError
  | RecursionError
  | Other string

text \<open>
  \<open>metadata\<close> is a dictionary. The module reads and writes the keys \<open>"headers"\<close>,
  \<open>"resource_class"\<close> and \<open>"pagination"\<close>; each is a field that is \<open>None\<close> when the key
  is absent, and \<open>others\<close> holds the remaining keys. The resource class is known by
  its name. The dictionaries of headers and of pagination links are maps.
\<close>

record metadata_dict =
  headers :: "(string \<rightharpoonup> string) option"
  resource_class :: "string option"
  pagination :: "(string \<rightharpoonup> string) option"
  others :: "string \<rightharpoonup> string"

definition empty_dict :: metadata_dict where
  "empty_dict = \<lparr> headers = None, resource_class = None, pagination = None, others = Map.empty \<rparr>"

text \<open>\<open>d.update(e)\<close>: the keys of \<open>e\<close> replace those of \<open>d\<close>.\<close>

definition dict_update :: "metadata_dict \<Rightarrow> metadata_dict \<Rightarrow> metadata_dict" where
  "dict_update d e =
     \<lparr> headers = (case headers e of None \<Rightarrow> headers d | Some h \<Rightarrow> Some h),
       resource_class = (case resource_class e of None \<Rightarrow> resource_class d | Some c \<Rightarrow> Some c),
       pagination = (case pagination e of None \<Rightarrow> pagination d | Some p \<Rightarrow> Some p),
       others = others d ++ others e \<rparr>"

subsection \<open>Parsing the \<open>Link\<close> header\<close>

text \<open>\<open>link[1:-1]\<close>: the string without its first and its last character, empty when
  it has fewer than three.\<close>

definition slice_1_m1 :: "string \<Rightarrow> string" where
  "slice_1_m1 link = butlast (tl link)"

text \<open>
  The loop of \<open>_parse_pagination\<close> over \<open>link_header.split(", ")\<close>. The unpacking
  \<open>link, rel = value.split("; ")\<close> raises \<open>ValueError\<close> unless there are exactly two
  parts, and \<open>rel.split('"')[1]\<close> raises \<open>IndexError\<close> when \<open>rel\<close> holds no double quote.
\<close>

fun parse_links :: "string list \<Rightarrow> (string \<rightharpoonup> string) \<Rightarrow> exn + (string \<rightharpoonup> string)" where
  "parse_links [] result = Inr result"
| "parse_links (value # values) result =
     (case split ''; '' value of
        [link, rel] \<Rightarrow>
          (case split [CHR 0x22] rel of
             _ # name # _ \<Rightarrow> parse_links values (result(name \<mapsto> slice_1_m1 link))
           | _ \<Rightarrow> Inl (IndexError ''list index out of range''))
      | _ \<Rightarrow> Inl ValueError)"

text \<open>\<open>headers.get("Link") or headers.get("link")\<close>: the first of the two values that is
  neither absent nor empty; \<open>None\<close> here is every value for which \<open>not link_header\<close>
  holds.\<close>

definition link_header :: "(string \<rightharpoonup> string) \<Rightarrow> string option" where
  "link_header hs =
     (case hs ''Link'' of
        Some v \<Rightarrow> if v \<noteq> [] then Some v
                  else (case hs ''link'' of Some v' \<Rightarrow> if v' \<noteq> [] then Some v' else None | None \<Rightarrow> None)
      | None \<Rightarrow> (case hs ''link'' of Some v' \<Rightarrow> if v' \<noteq> [] then Some v' else None | None \<Rightarrow> None))"

definition parse_pagination :: "metadata_dict \<Rightarrow> exn + (string \<rightharpoonup> string)" where
  "parse_pagination md =
     (let hs = (case headers md of None \<Rightarrow> Map.empty | Some h \<Rightarrow> h) in
      case link_header hs of
        None \<Rightarrow> Inr Map.empty
      | Some v \<Rightarrow> parse_links (split '', '' v) Map.empty)"

text \<open>
  The form of the header value as the specification writes it,
  \<^verbatim>\<open><url>; rel="name", <url2>; rel="name2"\<close>, for a list of pairs of name and URL.
\<close>

definition link_entry :: "string \<times> string \<Rightarrow> string" where
  "link_entry = (\<lambda>(name, url). ''<'' @ url @ ''>; rel=\"'' @ name @ ''\"'')"

definition link_value :: "(string \<times> string) list \<Rightarrow> string" where
  "link_value links = join '', '' (map link_entry links)"

text \<open>A pair of name and URL that the form can carry: no comma and no semicolon in
  either, and no double quote in the name.\<close>

definition clean_link :: "string \<times> string \<Rightarrow> bool" where
  "clean_link = (\<lambda>(name, url). CHR '','' \<notin> set name \<and> CHR '';'' \<notin> set name \<and> CHR 0x22 \<notin> set name
                   \<and> CHR '','' \<notin> set url \<and> CHR '';'' \<notin> set url)"

subsection \<open>Pages, the heap and the collaborator\<close>

text \<open>
  A page object. The attributes \<open>_next\<close>, \<open>_previous\<close>, \<open>_current_iter\<close> and
  \<open>_no_iter_next\<close> carry the prefix \<open>u_\<close> for the underscore; the first three hold
  \<open>None\<close> or a reference to a page, and a reference is the address of the page in the
  heap. \<open>items\<close> is the list that the base class \<open>Collection\<close> holds.
\<close>

record 'a page =
  items :: "'a list"
  metadata :: metadata_dict
  next_page_url :: "string option"
  previous_page_url :: "string option"
  u_next :: "nat option"
  u_previous :: "nat option"
  u_current_iter :: "nat option"
  u_no_iter_next :: bool

text \<open>
  The pages are mutable and refer to each other, so they live in a heap: the list of
  all page objects, a reference being an index. Python has no dangling reference; the
  theorems that read a page through a reference say that it is below the length of the
  heap. \<open>requests\<close> records the calls \<open>resource_class.find(from_=url)\<close> made so far,
  as pairs of class and URL: it is what the collaborator has been asked.
\<close>

record 'a world =
  heap :: "'a page list"
  requests :: "(string \<times> string) list"

text \<open>
  The constructor. Its first argument is a \<open>Collection\<close>, with its items and its
  metadata, or another iterable of items; the keywords are \<open>metadata\<close> and
  \<open>no_iter_next\<close>, \<open>None\<close> when not passed. The metadata dictionaries are taken by
  value. The base class \<open>Collection\<close> of \<open>pyactiveresource\<close> is a \<open>list\<close> that keeps
  the keyword \<open>metadata\<close> and hands the other keywords to \<open>list\<close>, which accepts
  none: in the second branch \<open>no_iter_next\<close> is still among the keywords when they are
  passed up, because it is popped only in the last line, and the call raises
  \<open>TypeError\<close>. \<open>base_init\<close> is the constructor up to and with the call of the base
  constructor: the items and the metadata that the base class stores.
\<close>

datatype 'a init_arg = FromCollection "'a list" metadata_dict | FromItems "'a list"

definition base_init :: "'a init_arg \<Rightarrow> metadata_dict option \<Rightarrow> bool option \<Rightarrow> exn + ('a list \<times> metadata_dict)" where
  "base_init obj md_kw no_iter_next_kw =
     (case obj of
        FromCollection xs obj_md \<Rightarrow>
          (let md0 = (case md_kw of None \<Rightarrow> obj_md
                      | Some m \<Rightarrow> if m \<noteq> empty_dict then m else obj_md);
               md1 = (if md0 \<noteq> empty_dict then dict_update md0 obj_md else md0)
           in Inr (xs, md1))
      | FromItems xs \<Rightarrow>
          (case no_iter_next_kw of
             Some _ \<Rightarrow> Inl (TypeError ''list() takes no keyword arguments'')
           | None \<Rightarrow>
               Inr (xs, (case md_kw of None \<Rightarrow> empty_dict
                         | Some m \<Rightarrow> if m \<noteq> empty_dict then m else empty_dict))))"

definition PaginatedCollection_init ::
  "'a init_arg \<Rightarrow> metadata_dict option \<Rightarrow> bool option \<Rightarrow> exn + 'a page" where
  "PaginatedCollection_init obj md_kw no_iter_next_kw =
     (case base_init obj md_kw no_iter_next_kw of
        Inl e \<Rightarrow> Inl e
      | Inr (xs, md) \<Rightarrow>
          if resource_class md = None
          then Inl (AttributeError
                 ''Cursor-based pagination requires a \"resource_class\" attribute in the metadata.'')
          else (case parse_pagination md of
                  Inl e \<Rightarrow> Inl e
                | Inr links \<Rightarrow>
                    Inr \<lparr> items = xs,
                          metadata = md\<lparr>pagination := Some links\<rparr>,
                          next_page_url = links ''next'',
                          previous_page_url = links ''previous'',
                          u_next = None,
                          u_previous = None,
                          u_current_iter = None,
                          u_no_iter_next = (case no_iter_next_kw of None \<Rightarrow> True | Some b \<Rightarrow> b) \<rparr>))"

text \<open>\<open>has_previous_page\<close> and \<open>has_next_page\<close>: \<open>bool(url)\<close> of an optional string.\<close>

definition has_previous_page :: "'a page \<Rightarrow> bool" where
  "has_previous_page self = (case previous_page_url self of None \<Rightarrow> False | Some url \<Rightarrow> url \<noteq> [])"

definition has_next_page :: "'a page \<Rightarrow> bool" where
  "has_next_page self = (case next_page_url self of None \<Rightarrow> False | Some url \<Rightarrow> url \<noteq> [])"

text \<open>
  \<open>__len__\<close>: \<open>len(self._next) if self._next else 0\<close>, plus the number of the page's
  own items. The test \<open>if self._next\<close> is the truth value of a page, and the class
  defines \<open>__len__\<close> and no \<open>__bool__\<close>, so it is \<open>len(self._next) != 0\<close>. The recursion
  follows \<open>_next\<close>; on a cycle it does not end, which is the value \<open>None\<close> here and a
  \<open>RecursionError\<close> in Python (whose bound on the depth of the recursion is not modelled).
\<close>

partial_function (option) page_len :: "'a page list \<Rightarrow> nat \<Rightarrow> nat option" where
  "page_len h self =
     (case u_next (h ! self) of
        None \<Rightarrow> Some (0 + length (items (h ! self)))
      | Some n \<Rightarrow>
          Option.bind (page_len h n) (\<lambda>t.
            if t \<noteq> 0
            then Option.bind (page_len h n) (\<lambda>count. Some (count + length (items (h ! self))))
            else Some (0 + length (items (h ! self)))))"

text \<open>
  The test \<open>if x: return x\<close> on an attribute that holds \<open>None\<close> or a page: \<open>Inr (Some n)\<close>
  when \<open>x\<close> is the page \<open>n\<close> and that page is true, \<open>Inr None\<close> when \<open>x\<close> is \<open>None\<close> or a page
  of length zero.
\<close>

definition truthy_page :: "'a page list \<Rightarrow> nat option \<Rightarrow> exn + nat option" where
  "truthy_page h x =
     (case x of
        None \<Rightarrow> Inr None
      | Some n \<Rightarrow> (case page_len h n of
                     None \<Rightarrow> Inl RecursionError
                   | Some l \<Rightarrow> Inr (if l \<noteq> 0 then Some n else None)))"

text \<open>
  The collaborator \<open>metadata["resource_class"].find(from_=url)\<close> is a parameter
  \<open>find_from\<close>: for a class and a URL it raises or returns a page object. The object it
  returns is new, so \<open>_fetch_page\<close> puts it at the end of the heap. A function that
  raises returns the exception together with the world as the exception leaves it.
\<close>

definition fetch_page ::
  "(string \<Rightarrow> string \<Rightarrow> exn + 'a page) \<Rightarrow> 'a world \<Rightarrow> nat \<Rightarrow> string \<Rightarrow> bool \<Rightarrow> (exn + nat) \<times> 'a world" where
  "fetch_page find_from w self url no_cache =
     (case resource_class (metadata (heap w ! self)) of
        None \<Rightarrow> (Inl (KeyError ''resource_class''), w)
      | Some cls \<Rightarrow>
          (let w1 = w\<lparr>requests := requests w @ [(cls, url)]\<rparr> in
           case find_from cls url of
             Inl e \<Rightarrow> (Inl e, w1)
           | Inr fetched \<Rightarrow>
               (let next_page = length (heap w1);
                    h1 = heap w1 @ [fetched];
                    h2 = (if \<not> no_cache
                          then (let h = h1[self := (h1 ! self)\<lparr>u_next := Some next_page\<rparr>]
                                in h[next_page := (h ! next_page)\<lparr>u_previous := Some self\<rparr>])
                          else h1);
                    h3 = h2[next_page := (h2 ! next_page)\<lparr>u_no_iter_next := u_no_iter_next (h2 ! self)\<rparr>]
                in (Inr next_page, w1\<lparr>heap := h3\<rparr>))))"

definition previous_page ::
  "(string \<Rightarrow> string \<Rightarrow> exn + 'a page) \<Rightarrow> 'a world \<Rightarrow> nat \<Rightarrow> bool \<Rightarrow> (exn + nat) \<times> 'a world" where
  "previous_page find_from w self no_cache =
     (case truthy_page (heap w) (u_previous (heap w ! self)) of
        Inl e \<Rightarrow> (Inl e, w)
      | Inr (Some p) \<Rightarrow> (Inr p, w)
      | Inr None \<Rightarrow>
          if \<not> has_previous_page (heap w ! self) then (Inl (IndexError ''No previous page''), w)
          else fetch_page find_from w self (the (previous_page_url (heap w ! self))) no_cache)"

definition next_page ::
  "(string \<Rightarrow> string \<Rightarrow> exn + 'a page) \<Rightarrow> 'a world \<Rightarrow> nat \<Rightarrow> bool \<Rightarrow> (exn + nat) \<times> 'a world" where
  "next_page find_from w self no_cache =
     (case truthy_page (heap w) (u_next (heap w ! self)) of
        Inl e \<Rightarrow> (Inl e, w)
      | Inr (Some n) \<Rightarrow> (Inr n, w)
      | Inr None \<Rightarrow>
          if \<not> has_next_page (heap w ! self) then (Inl (IndexError ''No next page''), w)
          else fetch_page find_from w self (the (next_page_url (heap w ! self))) no_cache)"

subsection \<open>Iteration\<close>

text \<open>
  A generator is modelled by what it yields when it is run to its end: the list of the
  values, the exception that ended it (\<open>None\<close> for a plain return) and the world it
  leaves. A generator that never ends, on a chain of pages without end, has the value
  \<open>None\<close>.
\<close>

definition except_IndexError :: "exn option \<Rightarrow> exn option" where
  "except_IndexError e = (case e of Some (IndexError _) \<Rightarrow> None | _ \<Rightarrow> e)"

text \<open>\<open>PaginatedCollection.__iter__\<close>: the items of the page, then, unless
  \<open>_no_iter_next\<close> is set, those of the iteration over \<open>self.next_page()\<close>; an
  \<open>IndexError\<close> raised inside the \<open>try\<close> ends the iteration.\<close>

definition set_current_iter :: "'a world \<Rightarrow> nat \<Rightarrow> nat \<Rightarrow> 'a world" where
  "set_current_iter w self p = w\<lparr>heap := (heap w)[self := (heap w ! self)\<lparr>u_current_iter := Some p\<rparr>]\<rparr>"

partial_function (option) PaginatedCollection_iter ::
  "(string \<Rightarrow> string \<Rightarrow> exn + 'a page) \<Rightarrow> 'a world \<Rightarrow> nat \<Rightarrow> ('a list \<times> exn option \<times> 'a world) option" where
  "PaginatedCollection_iter find_from w self =
     (let own = items (heap w ! self) in
      if u_no_iter_next (heap w ! self) then Some (own, None, w)
      else
        case truthy_page (heap w) (u_current_iter (heap w ! self)) of
          Inl e \<Rightarrow> Some (own, except_IndexError (Some e), w)
        | Inr c \<Rightarrow>
            (let w1 = (if c = None then set_current_iter w self self else w)
             in case next_page find_from w1 self False of
                  (Inl e, w2) \<Rightarrow> Some (own, except_IndexError (Some e), w2)
                | (Inr n, w2) \<Rightarrow>
                    Option.bind (PaginatedCollection_iter find_from (set_current_iter w2 self n) n)
                      (\<lambda>(sub, e, w4). Some (own @ sub, except_IndexError e, w4))))"

text \<open>\<open>PaginatedIterator\<close>: the constructor checks the class of its argument and sets
  \<open>_no_iter_next\<close> on the page; the iterator object holds the reference to the page.\<close>

datatype pyobj = PaginatedCollectionObj nat | OtherObj

definition PaginatedIterator_init :: "'a world \<Rightarrow> pyobj \<Rightarrow> (exn + nat) \<times> 'a world" where
  "PaginatedIterator_init w collection =
     (case collection of
        OtherObj \<Rightarrow> (Inl (TypeError ''PaginatedIterator expects a PaginatedCollection instance''), w)
      | PaginatedCollectionObj c \<Rightarrow>
          (Inr c, w\<lparr>heap := (heap w)[c := (heap w ! c)\<lparr>u_no_iter_next := True\<rparr>]\<rparr>))"

text \<open>\<open>PaginatedIterator.__iter__\<close>, from the page \<open>current_page\<close> on.\<close>

partial_function (option) PaginatedIterator_iter ::
  "(string \<Rightarrow> string \<Rightarrow> exn + 'a page) \<Rightarrow> 'a world \<Rightarrow> nat \<Rightarrow> (nat list \<times> exn option \<times> 'a world) option" where
  "PaginatedIterator_iter find_from w current_page =
     (case next_page find_from w current_page True of
        (Inl e, w') \<Rightarrow> Some ([current_page], except_IndexError (Some e), w')
      | (Inr n, w') \<Rightarrow>
          Option.bind (PaginatedIterator_iter find_from w' n)
            (\<lambda>(pages, e, w''). Some (current_page # pages, e, w'')))"

text \<open>
  The words of the specification for the page iterator: it yields the starting page,
  then the result of \<open>next(no_cache=true)\<close> on the page it yielded last, and ends when
  that call raises \<open>NoSuchPageError\<close> (the \<open>IndexError\<close> of the source).
\<close>

inductive page_walk ::
  "(string \<Rightarrow> string \<Rightarrow> exn + 'a page) \<Rightarrow> 'a world \<Rightarrow> nat \<Rightarrow> nat list \<Rightarrow> 'a world \<Rightarrow> bool"
  for find_from :: "string \<Rightarrow> string \<Rightarrow> exn + 'a page" where
  last_page: "next_page find_from w p True = (Inl (IndexError msg), w') \<Longrightarrow> page_walk find_from w p [p] w'"
| more_pages: "next_page find_from w p True = (Inr n, w') \<Longrightarrow> page_walk find_from w' n ps w''
               \<Longrightarrow> page_walk find_from w p (p # ps) w''"

text \<open>
  The words of the specification for the iteration over the items: the items of the
  page; with auto-advance, the items of the next page and of those after it follow,
  until a page reports no next link. The rules carry the bookkeeping of the source, the
  attribute \<open>_current_iter\<close>, which is written before and after the call of \<open>next_page()\<close>.
\<close>

inductive item_walk ::
  "(string \<Rightarrow> string \<Rightarrow> exn + 'a page) \<Rightarrow> 'a world \<Rightarrow> nat \<Rightarrow> 'a list \<Rightarrow> 'a world \<Rightarrow> bool"
  for find_from :: "string \<Rightarrow> string \<Rightarrow> exn + 'a page" where
  suppressed: "u_no_iter_next (heap w ! p) \<Longrightarrow> item_walk find_from w p (items (heap w ! p)) w"
| no_next_link:
    "\<not> u_no_iter_next (heap w ! p)
     \<Longrightarrow> truthy_page (heap w) (u_current_iter (heap w ! p)) = Inr c
     \<Longrightarrow> next_page find_from (if c = None then set_current_iter w p p else w) p False
           = (Inl (IndexError msg), w')
     \<Longrightarrow> item_walk find_from w p (items (heap w ! p)) w'"
| advance:
    "\<not> u_no_iter_next (heap w ! p)
     \<Longrightarrow> truthy_page (heap w) (u_current_iter (heap w ! p)) = Inr c
     \<Longrightarrow> next_page find_from (if c = None then set_current_iter w p p else w) p False
           = (Inr n, w')
     \<Longrightarrow> item_walk find_from (set_current_iter w' p n) n sub w''
     \<Longrightarrow> item_walk find_from w p (items (heap w ! p) @ sub) w''"

subsection \<open>A chain of three pages\<close>

text \<open>
  The pages that the examples use: a collaborator that serves the page \<open>P1\<close> with the
  items \<open>1, 2\<close> at \<open>u1\<close>, \<open>P2\<close> with the item \<open>3\<close> at \<open>u2\<close> and \<open>P3\<close> with the items
  \<open>4, 5\<close> at \<open>u3\<close>, linked \<open>P1 \<rightarrow> P2 \<rightarrow> P3\<close> by their \<open>Link\<close> headers, and an empty
  page without links at \<open>e2\<close>. The collaborator builds every page with the
  constructor, without the keyword \<open>no_iter_next\<close>.
\<close>

definition page_metadata :: "(string \<rightharpoonup> string) \<Rightarrow> metadata_dict" where
  "page_metadata hs =
     \<lparr> headers = Some hs, resource_class = Some ''Product'', pagination = None, others = Map.empty \<rparr>"

definition served :: "nat list \<Rightarrow> string \<Rightarrow> exn + nat page" where
  "served xs v = PaginatedCollection_init (FromItems xs) (Some (page_metadata [''Link'' \<mapsto> v])) None"

definition chain_find :: "string \<Rightarrow> string \<Rightarrow> exn + nat page" where
  "chain_find cls url =
     (if url = ''u1'' then served [1, 2] ''<u2>; rel=\"next\"''
      else if url = ''u2'' then served [3] ''<u1>; rel=\"previous\", <u3>; rel=\"next\"''
      else if url = ''u3'' then served [4, 5] ''<u2>; rel=\"previous\"''
      else if url = ''e2'' then PaginatedCollection_init (FromItems []) (Some (page_metadata Map.empty)) None
      else Inl (Other ''404 Not Found''))"

text \<open>The page objects that the constructor returns for these arguments.\<close>

definition linked_page :: "nat list \<Rightarrow> (string \<rightharpoonup> string) \<Rightarrow> (string \<rightharpoonup> string) \<Rightarrow> bool \<Rightarrow> nat page" where
  "linked_page xs hs links flag =
     \<lparr> items = xs,
       metadata = (page_metadata hs)\<lparr>pagination := Some links\<rparr>,
       next_page_url = links ''next'',
       previous_page_url = links ''previous'',
       u_next = None, u_previous = None, u_current_iter = None,
       u_no_iter_next = flag \<rparr>"

definition P1 :: "nat page" where
  "P1 = linked_page [1, 2] [''Link'' \<mapsto> ''<u2>; rel=\"next\"''] [''next'' \<mapsto> ''u2''] True"

definition P2 :: "nat page" where
  "P2 = linked_page [3] [''Link'' \<mapsto> ''<u1>; rel=\"previous\", <u3>; rel=\"next\"'']
          [''previous'' \<mapsto> ''u1'', ''next'' \<mapsto> ''u3''] True"

definition P3 :: "nat page" where
  "P3 = linked_page [4, 5] [''Link'' \<mapsto> ''<u2>; rel=\"previous\"''] [''previous'' \<mapsto> ''u2''] True"

text \<open>An empty page whose \<open>Link\<close> header names \<open>e2\<close> as its next page, and the empty
  page without links that the collaborator serves there.\<close>

definition E1 :: "nat page" where
  "E1 = linked_page [] [''Link'' \<mapsto> ''<e2>; rel=\"next\"''] [''next'' \<mapsto> ''e2''] True"

definition E2 :: "nat page" where
  "E2 = linked_page [] Map.empty Map.empty True"

section \<open>Properties of the string operations\<close>

lemma startswith_Some: "startswith p s = Some r \<longleftrightarrow> s = p @ r"
  by (induction p s rule: startswith.induct) auto

lemma split_no_sep: "d \<notin> set x \<Longrightarrow> split [d] x = [x]"
  by (induction x) auto

lemma split_at_sep: "d \<notin> set x \<Longrightarrow> split [d] (x @ d # rest) = x # split [d] rest"
  by (induction x) auto

lemma split_join:
  "xs \<noteq> [] \<Longrightarrow> \<forall>x\<in>set xs. d \<notin> set x \<Longrightarrow> split [d] (join [d] xs) = xs"
proof (induction "[d]" xs rule: join.induct)
  case 1
  then show ?case by simp
next
  case (2 x)
  then show ?case by (simp add: split_no_sep)
next
  case (3 x y ys)
  then show ?case by (simp add: split_at_sep)
qed

lemma strip_idem: "strip (strip s) = strip s"
proof -
  define t where "t = dropWhile isspace s"
  define u where "u = rev (dropWhile isspace (rev t))"
  have su: "strip s = u" by (simp add: strip_def t_def u_def)
  have "rev (takeWhile isspace (rev t) @ dropWhile isspace (rev t)) = t"
    by (simp only: takeWhile_dropWhile_id rev_rev_ident)
  then have t_eq: "t = u @ rev (takeWhile isspace (rev t))"
    by (simp only: rev_append u_def)
  have lead: "dropWhile isspace u = u"
  proof (cases u)
    case Nil
    then show ?thesis by simp
  next
    case (Cons a v)
    from t_eq Cons have "t = a # (v @ rev (takeWhile isspace (rev t)))" by simp
    then have "t \<noteq> []" and "hd t = a" by (metis list.distinct(1), metis list.sel(1))
    then have "\<not> isspace a" using hd_dropWhile [of isspace s] by (simp add: t_def)
    with Cons show ?thesis by simp
  qed
  have "strip u = rev (dropWhile isspace (rev u))" by (simp add: strip_def lead)
  also have "\<dots> = rev (dropWhile isspace (rev t))" by (simp add: u_def dropWhile_idem)
  finally show ?thesis by (simp add: su u_def)
qed

lemma validate_scopes_ok: "validate_scopes xs = Inr u \<longleftrightarrow> (\<forall>s\<in>set xs. SCOPE_RE s \<noteq> None)"
  by (induction xs) auto

lemma validate_scopes_error:
  "validate_scopes xs = Inl e \<Longrightarrow> \<exists>s\<in>set xs. SCOPE_RE s = None \<and> e = ApiAccessError (invalid_scope_message s)"
  by (induction xs) (auto split: if_splits)

section \<open>Properties of the access scopes\<close>

subsection \<open>The matcher and the constructor\<close>

lemma startswith_append: "startswith p (p @ r) = Some r"
  by (simp add: startswith_Some)

lemma startswith_snoc: "startswith (p @ [c]) (p @ c # r) = Some r"
  using startswith_append [of "p @ [c]" r] by simp

lemma verb_resource_matches:
  "verb_resource vs s \<noteq> None \<longleftrightarrow> (\<exists>v\<in>set vs. \<exists>r. s = v @ ''_'' @ r \<and> CHR 0x0A \<notin> set r)"
proof (induction vs)
  case Nil
  then show ?case by simp
next
  case (Cons v vs)
  have "Option.bind (startswith (v @ ''_'') s) resource_to_end \<noteq> None
          \<longleftrightarrow> (\<exists>r. s = v @ ''_'' @ r \<and> CHR 0x0A \<notin> set r)"
    by (cases "startswith (v @ ''_'') s")
       (auto simp: startswith_Some startswith_snoc resource_to_end_def)
  with Cons show ?case
    by (auto split: option.splits)
qed

lemma scope_regex_matches:
  "scope_regex vs s \<noteq> None \<longleftrightarrow>
     (\<exists>p\<in>{[], ''unauthenticated_''}. \<exists>v\<in>set vs. \<exists>r. s = p @ v @ ''_'' @ r \<and> CHR 0x0A \<notin> set r)"
proof -
  have "scope_regex vs s \<noteq> None \<longleftrightarrow>
          Option.bind (startswith ''unauthenticated_'' s) (verb_resource vs) \<noteq> None
          \<or> verb_resource vs s \<noteq> None"
    by (auto simp: scope_regex_def split: option.splits)
  moreover have "Option.bind (startswith ''unauthenticated_'' s) (verb_resource vs) \<noteq> None
      \<longleftrightarrow> (\<exists>v\<in>set vs. \<exists>r. s = ''unauthenticated_'' @ v @ ''_'' @ r \<and> CHR 0x0A \<notin> set r)"
  proof (cases "startswith ''unauthenticated_'' s")
    case None
    then have "\<And>t. s \<noteq> ''unauthenticated_'' @ t"
      using startswith_Some [of "''unauthenticated_''" s] by auto
    with None show ?thesis by auto
  next
    case (Some t)
    then have "s = ''unauthenticated_'' @ t" by (simp only: startswith_Some)
    with Some show ?thesis using verb_resource_matches [of vs t] by auto
  qed
  ultimately show ?thesis using verb_resource_matches [of vs s] by auto
qed

lemma store_scopes_valid:
  assumes "set (enum (set (sanitize scopes))) = set (sanitize scopes)"
    and "\<forall>s\<in>set (sanitize scopes). SCOPE_RE s \<noteq> None"
  shows "store_scopes enum scopes =
     Inr \<lparr> compressed_scopes = {s \<in> set (sanitize scopes). Some s \<notin> get_implied_scope ` set (sanitize scopes)},
           expanded_scopes = Some ` set (sanitize scopes) \<union> get_implied_scope ` set (sanitize scopes) \<rparr>"
proof -
  from assms have "validate_scopes (enum (set (sanitize scopes))) = Inr ()"
    by (simp add: validate_scopes_ok)
  then show ?thesis by (simp add: store_scopes_def Let_def)
qed

lemma store_scopes_Inr:
  assumes "store_scopes enum scopes = Inr A"
  shows "A = \<lparr> compressed_scopes = {s \<in> set (sanitize scopes). Some s \<notin> get_implied_scope ` set (sanitize scopes)},
           expanded_scopes = Some ` set (sanitize scopes) \<union> get_implied_scope ` set (sanitize scopes) \<rparr>
       \<and> (\<forall>s\<in>set (enum (set (sanitize scopes))). SCOPE_RE s \<noteq> None)"
  using assms validate_scopes_ok [of "enum (set (sanitize scopes))" "()"]
  by (auto simp: store_scopes_def Let_def split: sum.splits)

lemma store_scopes_Inl:
  assumes "store_scopes enum scopes = Inl e"
  shows "\<exists>s\<in>set (enum (set (sanitize scopes))). SCOPE_RE s = None \<and> e = ApiAccessError (invalid_scope_message s)"
  using assms validate_scopes_error [of "enum (set (sanitize scopes))" e]
  by (auto simp: store_scopes_def Let_def split: sum.splits)

lemma sanitize_fixed:
  assumes "\<forall>x\<in>set xs. x \<in> set (sanitize ys)"
  shows "sanitize xs = xs"
proof -
  have "\<forall>x\<in>set xs. strip x = x \<and> x \<noteq> []"
    using assms by (auto simp: sanitize_def strip_idem)
  then have "map strip xs = xs" and "\<forall>x\<in>set xs. x \<noteq> []"
    by (simp_all add: map_idI)
  then show ?thesis by (simp add: sanitize_def)
qed


lemmas scope_eval = entries.simps SCOPE_RE_def IMPLIED_SCOPE_RE_def scope_regex_def resource_to_end_def
  get_implied_scope_def sanitize_def SCOPE_DELIMITER_def strip_def isspace_def whitespace_def

subsection \<open>Covering\<close>

text \<open>
  Claim C1. \<open>A.covers(B)\<close> is true exactly when every compressed scope of \<open>B\<close> is an
  element of the expanded set of \<open>A\<close>; the access built from \<open>"write_orders"\<close> covers the
  one built from \<open>"read_orders"\<close>, and the converse call returns false. Both constructions
  succeed, in whatever order the frozensets are walked.
\<close>

theorem covers_iff_compressed_subset_expanded:
  assumes "enumerates ew {''write_orders''}" and "enumerates er {''read_orders''}"
  shows "(\<forall>A B. covers A B \<longleftrightarrow> Some ` compressed_scopes B \<subseteq> expanded_scopes A)
       \<and> (\<exists>W R. ApiAccess_init ew (Str ''write_orders'') = Inr W
                \<and> ApiAccess_init er (Str ''read_orders'') = Inr R
                \<and> covers W R \<and> \<not> covers R W)"
proof -
  have sw: "sanitize (entries (Str ''write_orders'')) = [''write_orders'']"
    and sr: "sanitize (entries (Str ''read_orders'')) = [''read_orders'']"
    by (simp_all add: scope_eval)
  have vw: "SCOPE_RE ''write_orders'' \<noteq> None" and vr: "SCOPE_RE ''read_orders'' \<noteq> None"
    by (simp_all add: scope_eval)
  have iw: "get_implied_scope ''write_orders'' = Some ''read_orders''"
    and ir: "get_implied_scope ''read_orders'' = None"
    by (simp_all add: scope_eval)
  have W: "ApiAccess_init ew (Str ''write_orders'') =
      Inr \<lparr>compressed_scopes = {''write_orders''},
           expanded_scopes = {Some ''write_orders'', Some ''read_orders''}\<rparr>"
    unfolding ApiAccess_init_def
    using assms(1) by (subst store_scopes_valid) (auto simp: sw vw iw enumerates_def)
  have R: "ApiAccess_init er (Str ''read_orders'') =
      Inr \<lparr>compressed_scopes = {''read_orders''},
           expanded_scopes = {Some ''read_orders'', None}\<rparr>"
    unfolding ApiAccess_init_def
    using assms(2) by (subst store_scopes_valid) (auto simp: sr vr ir enumerates_def)
  show ?thesis
    by (simp add: W R) (simp add: covers_def)
qed

text \<open>The theorem at the two walks that exist for these one-element sets.\<close>

theorem covers_iff_compressed_subset_expanded_witness:
  "enumerates (\<lambda>S. [''write_orders'']) {''write_orders''}
   \<and> enumerates (\<lambda>S. [''read_orders'']) {''read_orders''}
   \<and> (\<exists>W R. ApiAccess_init (\<lambda>S. [''write_orders'']) (Str ''write_orders'') = Inr W
            \<and> ApiAccess_init (\<lambda>S. [''read_orders'']) (Str ''read_orders'') = Inr R
            \<and> covers W R \<and> \<not> covers R W)"
proof -
  have w: "enumerates (\<lambda>S. [''write_orders'']) {''write_orders''}"
    and r: "enumerates (\<lambda>S. [''read_orders'']) {''read_orders''}"
    by (simp_all add: enumerates_def)
  from covers_iff_compressed_subset_expanded [OF w r] w r show ?thesis by blast
qed

subsection \<open>The expanded set\<close>

text \<open>What holds of the two sets: the expanded set is the compressed set together with
  the results of \<open>_get_implied_scope\<close>; the read scope implied by a write scope of the
  input is in the expanded set and not in the compressed set; and \<open>None\<close> is in the
  expanded set exactly when some scope of the input implies nothing.\<close>

lemma get_implied_scope_write:
  assumes "CHR 0x0A \<notin> set x"
  shows "get_implied_scope (''write_'' @ x) = Some (''read_'' @ x)"
    and "get_implied_scope (''unauthenticated_write_'' @ x) = Some (''unauthenticated_read_'' @ x)"
  using assms
  by (simp_all add: get_implied_scope_def IMPLIED_SCOPE_RE_def scope_regex_def resource_to_end_def)

lemma get_implied_scope_read:
  "get_implied_scope (''read_'' @ x) = None"
  "get_implied_scope (''unauthenticated_read_'' @ x) = None"
  by (simp_all add: get_implied_scope_def IMPLIED_SCOPE_RE_def scope_regex_def resource_to_end_def)

lemma expanded_is_compressed_and_implied:
  assumes "store_scopes enum scopes = Inr A"
  shows "expanded_scopes A = Some ` compressed_scopes A \<union> get_implied_scope ` set (sanitize scopes)"
    and "w \<in> set (sanitize scopes) \<Longrightarrow> get_implied_scope w = Some r
           \<Longrightarrow> Some r \<in> expanded_scopes A \<and> r \<notin> compressed_scopes A"
    and "None \<in> expanded_scopes A \<longleftrightarrow> (\<exists>s\<in>set (sanitize scopes). get_implied_scope s = None)"
proof -
  note A = store_scopes_Inr [OF assms, THEN conjunct1]
  show "expanded_scopes A = Some ` compressed_scopes A \<union> get_implied_scope ` set (sanitize scopes)"
    by (subst A, subst A) auto
  show "w \<in> set (sanitize scopes) \<Longrightarrow> get_implied_scope w = Some r
           \<Longrightarrow> Some r \<in> expanded_scopes A \<and> r \<notin> compressed_scopes A"
    by (subst A, subst A) force
  show "None \<in> expanded_scopes A \<longleftrightarrow> (\<exists>s\<in>set (sanitize scopes). get_implied_scope s = None)"
    by (subst A) (auto simp: image_iff, metis+)
qed

text \<open>
  Claim C2 says in addition that the expanded set holds scope strings and nothing else. The code
  collects the result of \<open>_get_implied_scope\<close> for every sanitized scope, and that result
  is \<open>None\<close> for a scope that is not a write scope: the access built from
  \<open>"read_orders"\<close> has the expanded set \<open>{"read_orders", None}\<close>.
\<close>

theorem expanded_scopes_holds_None:
  "ApiAccess_init (\<lambda>S. [''read_orders'']) (Str ''read_orders'') =
     Inr \<lparr>compressed_scopes = {''read_orders''}, expanded_scopes = {Some ''read_orders'', None}\<rparr>
   \<and> None \<in> expanded_scopes \<lparr>compressed_scopes = {''read_orders''}, expanded_scopes = {Some ''read_orders'', None}\<rparr>"
  by (simp add: ApiAccess_init_def store_scopes_def scope_eval insert_commute)

subsection \<open>Validation\<close>

text \<open>
  Claim C3, as stated, requires a resource that is not empty. The code's pattern ends in
  \<open>(.*)\<close>: the entry \<open>"read_"\<close> does not match the pattern of the specification, and
  the construction from it succeeds.
\<close>

theorem empty_resource_accepted:
  "sanitize (entries (Coll [''read_''])) = [''read_'']
   \<and> \<not> spec_scope_pattern ''read_''
   \<and> ApiAccess_init (\<lambda>S. [''read_'']) (Coll [''read_'']) =
       Inr \<lparr>compressed_scopes = {''read_''}, expanded_scopes = {Some ''read_'', None}\<rparr>"
  by (simp add: ApiAccess_init_def store_scopes_def spec_scope_pattern_def scope_eval insert_commute)

text \<open>
  Claim C3, amended. The construction succeeds exactly when every entry left after
  trimming and dropping the empty ones matches \<open>SCOPE_RE\<close>; when it fails, the result is
  the error alone, and its message names an entry that does not match. An entry matches
  \<open>SCOPE_RE\<close> exactly when it is an optional \<open>unauthenticated_\<close>, then \<open>write\<close> or
  \<open>read\<close>, then \<open>_\<close>, then a resource without newline, which may be empty.
\<close>

theorem construction_succeeds_iff_all_entries_match:
  assumes "enumerates enum (set (sanitize (entries arg)))"
  shows "((\<exists>A. ApiAccess_init enum arg = Inr A) \<longleftrightarrow>
            (\<forall>s\<in>set (sanitize (entries arg)). SCOPE_RE s \<noteq> None))
       \<and> (\<forall>e. ApiAccess_init enum arg = Inl e \<longrightarrow>
            (\<exists>s\<in>set (sanitize (entries arg)).
               SCOPE_RE s = None \<and> e = ApiAccessError (invalid_scope_message s)))
       \<and> (\<forall>s. SCOPE_RE s \<noteq> None \<longleftrightarrow>
            (\<exists>p\<in>{[], ''unauthenticated_''}. \<exists>v\<in>{''write'', ''read''}. \<exists>r.
               s = p @ v @ ''_'' @ r \<and> CHR 0x0A \<notin> set r))"
proof -
  from assms have en: "set (enum (set (sanitize (entries arg)))) = set (sanitize (entries arg))"
    by (simp add: enumerates_def)
  have 1: "(\<exists>A. ApiAccess_init enum arg = Inr A) \<longleftrightarrow>
            (\<forall>s\<in>set (sanitize (entries arg)). SCOPE_RE s \<noteq> None)"
  proof
    assume "\<exists>A. ApiAccess_init enum arg = Inr A"
    then obtain A where "store_scopes enum (entries arg) = Inr A"
      by (auto simp: ApiAccess_init_def)
    from store_scopes_Inr [OF this] en
    show "\<forall>s\<in>set (sanitize (entries arg)). SCOPE_RE s \<noteq> None" by simp
  next
    assume "\<forall>s\<in>set (sanitize (entries arg)). SCOPE_RE s \<noteq> None"
    from store_scopes_valid [of enum "entries arg", OF en this]
    show "\<exists>A. ApiAccess_init enum arg = Inr A"
      by (simp add: ApiAccess_init_def)
  qed
  have 2: "\<forall>e. ApiAccess_init enum arg = Inl e \<longrightarrow>
            (\<exists>s\<in>set (sanitize (entries arg)).
               SCOPE_RE s = None \<and> e = ApiAccessError (invalid_scope_message s))"
    using store_scopes_Inl [of enum "entries arg"] en
    by (auto simp: ApiAccess_init_def)
  have 3: "\<forall>s. SCOPE_RE s \<noteq> None \<longleftrightarrow>
            (\<exists>p\<in>{[], ''unauthenticated_''}. \<exists>v\<in>{''write'', ''read''}. \<exists>r.
               s = p @ v @ ''_'' @ r \<and> CHR 0x0A \<notin> set r)"
    unfolding SCOPE_RE_def using scope_regex_matches [of "[''write'', ''read'']"] by simp
  from 1 2 3 show ?thesis by blast
qed

text \<open>The theorem at \<open>"foo"\<close>: the construction fails and the error names \<open>foo\<close>.\<close>

theorem construction_succeeds_iff_all_entries_match_witness:
  "enumerates (\<lambda>S. [''foo'']) (set (sanitize (entries (Str ''foo''))))
   \<and> ApiAccess_init (\<lambda>S. [''foo'']) (Str ''foo'')
       = Inl (ApiAccessError (invalid_scope_message ''foo''))
   \<and> SCOPE_RE ''foo'' = None
   \<and> (\<nexists>A. ApiAccess_init (\<lambda>S. [''foo'']) (Str ''foo'') = Inr A)"
proof -
  have s: "sanitize (entries (Str ''foo'')) = [''foo'']" by (simp add: scope_eval)
  have e: "enumerates (\<lambda>S. [''foo'']) (set (sanitize (entries (Str ''foo''))))"
    by (simp only: s) (simp add: enumerates_def)
  have n: "SCOPE_RE ''foo'' = None" by (simp add: scope_eval)
  note inst = construction_succeeds_iff_all_entries_match [OF e, unfolded s]
  from inst n
  have no: "\<nexists>A. ApiAccess_init (\<lambda>S. [''foo'']) (Str ''foo'') = Inr A"
    and err: "\<forall>e. ApiAccess_init (\<lambda>S. [''foo'']) (Str ''foo'') = Inl e \<longrightarrow>
               e = ApiAccessError (invalid_scope_message ''foo'')"
    by (simp_all del: entries.simps)
  from no err have "ApiAccess_init (\<lambda>S. [''foo'']) (Str ''foo'')
       = Inl (ApiAccessError (invalid_scope_message ''foo''))"
    by (cases "ApiAccess_init (\<lambda>S. [''foo'']) (Str ''foo'')") auto
  with e n no show ?thesis by blast
qed

subsection \<open>Printing and parsing again\<close>

text \<open>
  Claim C7, as stated, covers every access that was constructed. A collection may hold
  a scope with a comma in its resource: the access built from the collection
  \<open>["read_a,b"]\<close> prints as \<open>"read_a,b"\<close>, and parsing that string fails on the entry
  \<open>"b"\<close>.
\<close>

theorem delimiter_in_scope_breaks_round_trip:
  "ApiAccess_init (\<lambda>S. [''read_a,b'']) (Coll [''read_a,b'']) =
     Inr \<lparr>compressed_scopes = {''read_a,b''}, expanded_scopes = {Some ''read_a,b'', None}\<rparr>
   \<and> ApiAccess_str (\<lambda>S. [''read_a,b''])
        \<lparr>compressed_scopes = {''read_a,b''}, expanded_scopes = {Some ''read_a,b'', None}\<rparr>
      = ''read_a,b''
   \<and> ApiAccess_init (\<lambda>S. [''read_a'', ''b'']) (Str ''read_a,b'') =
       Inl (ApiAccessError (invalid_scope_message ''b''))"
  by (simp add: ApiAccess_init_def ApiAccess_str_def store_scopes_def scope_eval insert_commute)

lemma entries_of_joined:
  assumes "\<forall>x\<in>set xs. CHR '','' \<notin> set x" and "\<forall>x\<in>set xs. x \<in> set (sanitize ys)"
  shows "sanitize (entries (Str (join SCOPE_DELIMITER xs))) = xs"
proof (cases "xs = []")
  case True
  then show ?thesis
    by (simp add: entries.simps sanitize_def strip_def)
next
  case False
  with assms(1) have "entries (Str (join SCOPE_DELIMITER xs)) = xs"
    by (simp add: entries.simps SCOPE_DELIMITER_def split_join)
  with assms(2) show ?thesis by (simp add: sanitize_fixed)
qed

text \<open>
  Claim C7, amended. For every access \<open>S\<close> that was constructed and none of whose
  compressed scopes holds the delimiter, parsing the string \<open>str(S)\<close> succeeds and gives
  an access equal to \<open>S\<close>, in whatever order the frozensets are walked.
\<close>

theorem str_round_trip:
  assumes "enumerates enum0 (set (sanitize (entries arg)))"
    and "ApiAccess_init enum0 arg = Inr S"
    and "enumerates enum1 (compressed_scopes S)"
    and "\<forall>s\<in>compressed_scopes S. CHR '','' \<notin> set s"
    and "enumerates enum2 (set (sanitize (entries (Str (ApiAccess_str enum1 S)))))"
  shows "\<exists>S'. ApiAccess_init enum2 (Str (ApiAccess_str enum1 S)) = Inr S' \<and> ApiAccess_eq S' S"
proof -
  define San where "San = set (sanitize (entries arg))"
  define xs where "xs = enum1 (compressed_scopes S)"
  from assms(2) have st: "store_scopes enum0 (entries arg) = Inr S"
    by (simp add: ApiAccess_init_def)
  from assms(1) have e0: "set (enum0 San) = San" by (simp add: enumerates_def San_def)
  from store_scopes_Inr [OF st] e0
  have C: "compressed_scopes S = {s \<in> San. Some s \<notin> get_implied_scope ` San}"
    and valid: "\<forall>s\<in>San. SCOPE_RE s \<noteq> None"
    by (simp_all add: San_def)
  from assms(3) have xs: "set xs = compressed_scopes S" by (simp add: enumerates_def xs_def)
  have "\<forall>x\<in>set xs. CHR '','' \<notin> set x" using assms(4) xs by simp
  moreover have "\<forall>x\<in>set xs. x \<in> set (sanitize (entries arg))" using xs C by (simp add: San_def)
  ultimately have san': "sanitize (entries (Str (ApiAccess_str enum1 S))) = xs"
    unfolding ApiAccess_str_def xs_def [symmetric] by (rule entries_of_joined)
  from assms(5) have e2: "set (enum2 (set (sanitize (entries (Str (ApiAccess_str enum1 S)))))) =
      set (sanitize (entries (Str (ApiAccess_str enum1 S))))"
    by (simp add: enumerates_def)
  have valid': "\<forall>s\<in>set (sanitize (entries (Str (ApiAccess_str enum1 S)))). SCOPE_RE s \<noteq> None"
    using valid xs C by (simp add: san')
  note r = store_scopes_valid [of enum2 "entries (Str (ApiAccess_str enum1 S))", OF e2 valid']
  have "{s \<in> set xs. Some s \<notin> get_implied_scope ` set xs} = compressed_scopes S"
    unfolding xs C by auto
  with r show ?thesis
    by (simp add: ApiAccess_init_def ApiAccess_eq_def san')
qed

text \<open>The theorem at the access built from \<open>"read_orders,write_orders"\<close>.\<close>

theorem str_round_trip_witness:
  "enumerates (\<lambda>S. [''read_orders'', ''write_orders'']) (set (sanitize (entries (Str ''read_orders,write_orders''))))
   \<and> ApiAccess_init (\<lambda>S. [''read_orders'', ''write_orders'']) (Str ''read_orders,write_orders'')
       = Inr \<lparr>compressed_scopes = {''write_orders''},
              expanded_scopes = {Some ''read_orders'', Some ''write_orders'', None}\<rparr>
   \<and> ApiAccess_str (\<lambda>S. [''write_orders''])
        \<lparr>compressed_scopes = {''write_orders''},
         expanded_scopes = {Some ''read_orders'', Some ''write_orders'', None}\<rparr> = ''write_orders''
   \<and> (\<exists>S'. ApiAccess_init (\<lambda>S. [''write_orders'']) (Str ''write_orders'') = Inr S'
          \<and> ApiAccess_eq S' \<lparr>compressed_scopes = {''write_orders''},
              expanded_scopes = {Some ''read_orders'', Some ''write_orders'', None}\<rparr>)"
proof -
  let ?e0 = "\<lambda>S::string set. [''read_orders'', ''write_orders'']"
  let ?e1 = "\<lambda>S::string set. [''write_orders'']"
  let ?S = "\<lparr>compressed_scopes = {''write_orders''},
              expanded_scopes = {Some ''read_orders'', Some ''write_orders'', None}\<rparr>"
  have s0: "sanitize (entries (Str ''read_orders,write_orders'')) = [''read_orders'', ''write_orders'']"
    by (simp add: scope_eval)
  have h1: "enumerates ?e0 (set (sanitize (entries (Str ''read_orders,write_orders''))))"
    by (simp only: s0) (simp add: enumerates_def)
  have h2: "ApiAccess_init ?e0 (Str ''read_orders,write_orders'') = Inr ?S"
    by (simp add: ApiAccess_init_def store_scopes_def scope_eval) auto
  have h3: "enumerates ?e1 (compressed_scopes ?S)" by (simp add: enumerates_def)
  have h4: "\<forall>s\<in>compressed_scopes ?S. CHR '','' \<notin> set s" by simp
  have str: "ApiAccess_str ?e1 ?S = ''write_orders''" by (simp add: ApiAccess_str_def)
  have h5: "enumerates ?e1 (set (sanitize (entries (Str (ApiAccess_str ?e1 ?S)))))"
    by (simp only: str) (simp add: scope_eval enumerates_def)
  from str_round_trip [OF h1 h2 h3 h4 h5] h1 h2 str show ?thesis by (simp only:)
qed

section \<open>Properties of the pagination\<close>

subsection \<open>The pages of the examples\<close>

lemma served_P1: "chain_find cls ''u1'' = Inr P1"
  by (simp add: chain_find_def served_def PaginatedCollection_init_def base_init_def
        parse_pagination_def link_header_def slice_1_m1_def page_metadata_def empty_dict_def
        P1_def linked_page_def)

lemma served_P2: "chain_find cls ''u2'' = Inr P2"
  by (simp add: chain_find_def served_def PaginatedCollection_init_def base_init_def
        parse_pagination_def link_header_def slice_1_m1_def page_metadata_def empty_dict_def
        P2_def linked_page_def)

lemma served_P3: "chain_find cls ''u3'' = Inr P3"
  by (simp add: chain_find_def served_def PaginatedCollection_init_def base_init_def
        parse_pagination_def link_header_def slice_1_m1_def page_metadata_def empty_dict_def
        P3_def linked_page_def)

lemma served_empty: "chain_find cls ''e2'' = Inr (linked_page [] Map.empty Map.empty True)"
  by (simp add: chain_find_def served_def PaginatedCollection_init_def base_init_def
        parse_pagination_def link_header_def slice_1_m1_def page_metadata_def empty_dict_def
        linked_page_def)

lemma fetch_page_result:
  assumes "self < length (heap w)"
    and "fetch_page find_from w self url no_cache = (Inr fetched, w')"
  shows "fetched = length (heap w)
       \<and> length (heap w') = Suc (length (heap w))
       \<and> u_no_iter_next (heap w' ! fetched) = u_no_iter_next (heap w ! self)
       \<and> u_no_iter_next (heap w' ! self) = u_no_iter_next (heap w ! self)"
  using assms
  by (auto simp: fetch_page_def Let_def nth_append nth_list_update
           split: option.splits sum.splits if_splits)


subsection \<open>Navigation, step by step\<close>

lemma served_E2: "chain_find cls ''e2'' = Inr E2"
  by (simp add: served_empty E2_def)

lemma page_len_last: "u_next (h ! a) = None \<Longrightarrow> page_len h a = Some (length (items (h ! a)))"
  by (subst page_len.simps) simp

lemma page_len_cached:
  "u_next (h ! a) = Some n \<Longrightarrow> page_len h n = Some l
     \<Longrightarrow> page_len h a = Some (l + length (items (h ! a)))"
  by (subst page_len.simps) simp

lemma truthy_page_None: "truthy_page h None = Inr None"
  by (simp add: truthy_page_def)

lemma truthy_page_Some:
  "page_len h n = Some l \<Longrightarrow> truthy_page h (Some n) = Inr (if l \<noteq> 0 then Some n else None)"
  by (simp add: truthy_page_def)

lemma fetch_page_cache:
  assumes "resource_class (metadata (heap w ! self)) = Some cls"
    and "find_from cls url = Inr fetched" and "self < length (heap w)"
  shows "fetch_page find_from w self url False =
     (Inr (length (heap w)),
      \<lparr>heap = (heap w)[self := (heap w ! self)\<lparr>u_next := Some (length (heap w))\<rparr>]
               @ [fetched\<lparr>u_previous := Some self, u_no_iter_next := u_no_iter_next (heap w ! self)\<rparr>],
       requests = requests w @ [(cls, url)]\<rparr>)"
  using assms by (simp add: fetch_page_def Let_def nth_append list_update_append)

lemma fetch_page_no_cache:
  assumes "resource_class (metadata (heap w ! self)) = Some cls"
    and "find_from cls url = Inr fetched" and "self < length (heap w)"
  shows "fetch_page find_from w self url True =
     (Inr (length (heap w)),
      \<lparr>heap = heap w @ [fetched\<lparr>u_no_iter_next := u_no_iter_next (heap w ! self)\<rparr>],
       requests = requests w @ [(cls, url)]\<rparr>)"
  using assms by (simp add: fetch_page_def Let_def nth_append list_update_append)

lemma next_page_cached:
  "u_next (heap w ! self) = Some n \<Longrightarrow> page_len (heap w) n = Some l \<Longrightarrow> l \<noteq> 0
     \<Longrightarrow> next_page find_from w self no_cache = (Inr n, w)"
  by (simp add: next_page_def truthy_page_def)

lemma previous_page_cached:
  "u_previous (heap w ! self) = Some p \<Longrightarrow> page_len (heap w) p = Some l \<Longrightarrow> l \<noteq> 0
     \<Longrightarrow> previous_page find_from w self no_cache = (Inr p, w)"
  by (simp add: previous_page_def truthy_page_def)

lemma next_page_fetches:
  "truthy_page (heap w) (u_next (heap w ! self)) = Inr None
     \<Longrightarrow> next_page_url (heap w ! self) = Some url \<Longrightarrow> url \<noteq> []
     \<Longrightarrow> next_page find_from w self no_cache = fetch_page find_from w self url no_cache"
  by (simp add: next_page_def has_next_page_def)

lemma previous_page_fetches:
  "truthy_page (heap w) (u_previous (heap w ! self)) = Inr None
     \<Longrightarrow> previous_page_url (heap w ! self) = Some url \<Longrightarrow> url \<noteq> []
     \<Longrightarrow> previous_page find_from w self no_cache = fetch_page find_from w self url no_cache"
  by (simp add: previous_page_def has_previous_page_def)

lemma next_page_no_link:
  "truthy_page (heap w) (u_next (heap w ! self)) = Inr None
     \<Longrightarrow> next_page_url (heap w ! self) = None \<or> next_page_url (heap w ! self) = Some []
     \<Longrightarrow> next_page find_from w self no_cache = (Inl (IndexError ''No next page''), w)"
  by (auto simp: next_page_def has_next_page_def)

lemma previous_page_no_link:
  "truthy_page (heap w) (u_previous (heap w ! self)) = Inr None
     \<Longrightarrow> previous_page_url (heap w ! self) = None \<or> previous_page_url (heap w ! self) = Some []
     \<Longrightarrow> previous_page find_from w self no_cache = (Inl (IndexError ''No previous page''), w)"
  by (auto simp: previous_page_def has_previous_page_def)

lemma linked_page_fields:
  "items (linked_page xs hs links flag) = xs"
  "resource_class (metadata (linked_page xs hs links flag)) = Some ''Product''"
  "next_page_url (linked_page xs hs links flag) = links ''next''"
  "previous_page_url (linked_page xs hs links flag) = links ''previous''"
  "u_next (linked_page xs hs links flag) = None"
  "u_previous (linked_page xs hs links flag) = None"
  "u_current_iter (linked_page xs hs links flag) = None"
  "u_no_iter_next (linked_page xs hs links flag) = flag"
  by (simp_all add: linked_page_def page_metadata_def)

lemmas chain_pages = P1_def P2_def P3_def E1_def E2_def

lemma next_page_from_P1_no_cache:
  "next_page chain_find \<lparr>heap = [P1\<lparr>u_no_iter_next := flag\<rparr>], requests = []\<rparr> 0 True =
     (Inr 1, \<lparr>heap = [P1\<lparr>u_no_iter_next := flag\<rparr>, P2\<lparr>u_no_iter_next := flag\<rparr>],
              requests = [(''Product'', ''u2'')]\<rparr>)"
  by (simp add: next_page_def fetch_page_def served_P2 P1_def linked_page_def page_metadata_def
        has_next_page_def truthy_page_def)


subsection \<open>Caching of the fetched page\<close>

text \<open>
  Claim C4 says that the page fetched by \<open>previous(no_cache=false)\<close> is put into the
  caller's cache slot of that direction, so that a second call returns it without a
  fetch. \<open>_fetch_page\<close> serves both directions and writes \<open>self._next\<close> and
  \<open>next_page._previous\<close> in both. On the page \<open>P2\<close>, whose previous page is at \<open>u1\<close>:
  the first call of \<open>previous_page()\<close> fetches \<open>P1\<close> and stores it in \<open>_next\<close>, \<open>_previous\<close>
  of the caller staying \<open>None\<close>; the second call asks the collaborator again and returns
  another new page; and \<open>next_page()\<close> now returns the page fetched from \<open>u1\<close>.
\<close>

theorem previous_page_caches_in_next_slot:
  "previous_page chain_find \<lparr>heap = [P2], requests = []\<rparr> 0 False =
     (Inr 1, \<lparr>heap = [P2\<lparr>u_next := Some 1\<rparr>, P1\<lparr>u_previous := Some 0\<rparr>],
              requests = [(''Product'', ''u1'')]\<rparr>)
   \<and> previous_page chain_find
         \<lparr>heap = [P2\<lparr>u_next := Some 1\<rparr>, P1\<lparr>u_previous := Some 0\<rparr>],
          requests = [(''Product'', ''u1'')]\<rparr> 0 False =
     (Inr 2, \<lparr>heap = [P2\<lparr>u_next := Some 2\<rparr>, P1\<lparr>u_previous := Some 0\<rparr>, P1\<lparr>u_previous := Some 0\<rparr>],
              requests = [(''Product'', ''u1''), (''Product'', ''u1'')]\<rparr>)
   \<and> next_page chain_find
         \<lparr>heap = [P2\<lparr>u_next := Some 1\<rparr>, P1\<lparr>u_previous := Some 0\<rparr>],
          requests = [(''Product'', ''u1'')]\<rparr> 0 False =
     (Inr 1, \<lparr>heap = [P2\<lparr>u_next := Some 1\<rparr>, P1\<lparr>u_previous := Some 0\<rparr>],
              requests = [(''Product'', ''u1'')]\<rparr>)"
proof -
  let ?w0 = "\<lparr>heap = [P2], requests = []\<rparr>"
  let ?w1 = "\<lparr>heap = [P2\<lparr>u_next := Some 1\<rparr>, P1\<lparr>u_previous := Some 0\<rparr>],
              requests = [(''Product'', ''u1'')]\<rparr>"
  let ?w2 = "\<lparr>heap = [P2\<lparr>u_next := Some 2\<rparr>, P1\<lparr>u_previous := Some 0\<rparr>, P1\<lparr>u_previous := Some 0\<rparr>],
              requests = [(''Product'', ''u1''), (''Product'', ''u1'')]\<rparr>"
  have s1: "previous_page chain_find ?w0 0 False = (Inr 1, ?w1)"
    by (simp add: previous_page_def truthy_page_def has_previous_page_def fetch_page_def
          served_P1 chain_pages linked_page_fields)
  have s2: "previous_page chain_find ?w1 0 False = (Inr 2, ?w2)"
    by (simp add: previous_page_def truthy_page_def has_previous_page_def fetch_page_def
          served_P1 chain_pages linked_page_fields)
  have len: "page_len (heap ?w1) 1 = Some 2"
    using page_len_last [of "heap ?w1" 1] by (simp add: chain_pages linked_page_fields)
  have s3: "next_page chain_find ?w1 0 False = (Inr 1, ?w1)"
    by (rule next_page_cached [OF _ len]) simp_all
  from s1 s2 s3 show ?thesis by (simp only:)
qed


text \<open>
  Claim C9 says that a cached adjacent page is returned whenever there is one. The
  test is \<open>if self._previous:\<close>, the truth value of the page, which is false for a page
  of length zero. The empty page \<open>E1\<close> fetches the empty page \<open>E2\<close>, which has no link;
  \<open>E2._previous\<close> is then \<open>E1\<close>, and \<open>E2.previous_page()\<close> raises \<open>IndexError\<close>.
\<close>

theorem empty_cached_page_is_not_returned:
  "next_page chain_find \<lparr>heap = [E1], requests = []\<rparr> 0 False =
     (Inr 1, \<lparr>heap = [E1\<lparr>u_next := Some 1\<rparr>, E2\<lparr>u_previous := Some 0\<rparr>],
              requests = [(''Product'', ''e2'')]\<rparr>)
   \<and> u_previous (heap \<lparr>heap = [E1\<lparr>u_next := Some 1\<rparr>, E2\<lparr>u_previous := Some 0\<rparr>],
              requests = [(''Product'', ''e2'')]\<rparr> ! 1) = Some 0
   \<and> previous_page chain_find
         \<lparr>heap = [E1\<lparr>u_next := Some 1\<rparr>, E2\<lparr>u_previous := Some 0\<rparr>],
          requests = [(''Product'', ''e2'')]\<rparr> 1 False =
     (Inl (IndexError ''No previous page''),
      \<lparr>heap = [E1\<lparr>u_next := Some 1\<rparr>, E2\<lparr>u_previous := Some 0\<rparr>],
       requests = [(''Product'', ''e2'')]\<rparr>)"
proof -
  let ?w0 = "\<lparr>heap = [E1], requests = []\<rparr>"
  let ?w1 = "\<lparr>heap = [E1\<lparr>u_next := Some 1\<rparr>, E2\<lparr>u_previous := Some 0\<rparr>],
              requests = [(''Product'', ''e2'')]\<rparr>"
  have s1: "next_page chain_find ?w0 0 False = (Inr 1, ?w1)"
    by (simp add: next_page_def truthy_page_def has_next_page_def fetch_page_def
          served_E2 chain_pages linked_page_fields)
  have len1: "page_len (heap ?w1) 1 = Some 0"
    using page_len_last [of "heap ?w1" 1] by (simp add: chain_pages linked_page_fields)
  have len0: "page_len (heap ?w1) 0 = Some 0"
    using page_len_cached [of "heap ?w1" 0 1 0] len1 by (simp add: chain_pages linked_page_fields)
  have t: "truthy_page (heap ?w1) (u_previous (heap ?w1 ! 1)) = Inr None"
    using truthy_page_Some [OF len0] by simp
  have s2: "previous_page chain_find ?w1 1 False = (Inl (IndexError ''No previous page''), ?w1)"
    by (rule previous_page_no_link [OF t]) (simp add: chain_pages linked_page_fields)
  from s1 s2 show ?thesis by simp
qed

subsection \<open>The auto-advance setting of a fetched page\<close>

text \<open>
  Claim C10. The page that \<open>_fetch_page\<close> returns has the \<open>_no_iter_next\<close> of the page
  that fetched it, whatever \<open>no_cache\<close> is; so has the page that \<open>next_page\<close> or
  \<open>previous_page\<close> returns whenever the call asked the collaborator.
\<close>

theorem fetched_page_inherits_no_iter_next:
  assumes "self < length (heap w)"
  shows "(fetch_page find_from w self url no_cache = (Inr q, w')
            \<longrightarrow> u_no_iter_next (heap w' ! q) = u_no_iter_next (heap w ! self))
       \<and> (next_page find_from w self no_cache = (Inr q, w') \<and> requests w' \<noteq> requests w
            \<longrightarrow> u_no_iter_next (heap w' ! q) = u_no_iter_next (heap w ! self))
       \<and> (previous_page find_from w self no_cache = (Inr q, w') \<and> requests w' \<noteq> requests w
            \<longrightarrow> u_no_iter_next (heap w' ! q) = u_no_iter_next (heap w ! self))"
proof -
  have f: "\<And>u. fetch_page find_from w self u no_cache = (Inr q, w')
            \<Longrightarrow> u_no_iter_next (heap w' ! q) = u_no_iter_next (heap w ! self)"
    using fetch_page_result [OF assms] by blast
  have n: "next_page find_from w self no_cache = (Inr q, w') \<Longrightarrow> requests w' \<noteq> requests w
            \<Longrightarrow> u_no_iter_next (heap w' ! q) = u_no_iter_next (heap w ! self)"
    by (auto simp: next_page_def split: sum.splits option.splits if_splits dest: f)
  have p: "previous_page find_from w self no_cache = (Inr q, w') \<Longrightarrow> requests w' \<noteq> requests w
            \<Longrightarrow> u_no_iter_next (heap w' ! q) = u_no_iter_next (heap w ! self)"
    by (auto simp: previous_page_def split: sum.splits option.splits if_splits dest: f)
  from f n p show ?thesis by blast
qed


text \<open>The theorem at the page \<open>P1\<close> with auto-advance on: the page served for \<open>u2\<close> is
  built with \<open>_no_iter_next\<close> set, and the fetched page has it cleared.\<close>

theorem fetched_page_inherits_no_iter_next_witness:
  "(0::nat) < length (heap \<lparr>heap = [P1\<lparr>u_no_iter_next := False\<rparr>], requests = []\<rparr>)
   \<and> next_page chain_find \<lparr>heap = [P1\<lparr>u_no_iter_next := False\<rparr>], requests = []\<rparr> 0 True =
       (Inr 1, \<lparr>heap = [P1\<lparr>u_no_iter_next := False\<rparr>, P2\<lparr>u_no_iter_next := False\<rparr>],
                requests = [(''Product'', ''u2'')]\<rparr>)
   \<and> u_no_iter_next P2
   \<and> \<not> u_no_iter_next (heap \<lparr>heap = [P1\<lparr>u_no_iter_next := False\<rparr>, P2\<lparr>u_no_iter_next := False\<rparr>],
                requests = [(''Product'', ''u2'')]\<rparr> ! 1)"
proof -
  let ?w = "\<lparr>heap = [P1\<lparr>u_no_iter_next := False\<rparr>], requests = []\<rparr>"
  let ?w' = "\<lparr>heap = [P1\<lparr>u_no_iter_next := False\<rparr>, P2\<lparr>u_no_iter_next := False\<rparr>],
                requests = [(''Product'', ''u2'')]\<rparr>"
  have l: "(0::nat) < length (heap ?w)" by simp
  have n: "next_page chain_find ?w 0 True = (Inr 1, ?w')" by (rule next_page_from_P1_no_cache)
  have r: "requests ?w' \<noteq> requests ?w" by simp
  have "u_no_iter_next (heap ?w' ! 1) = u_no_iter_next (heap ?w ! 0)"
    using fetched_page_inherits_no_iter_next [OF l, where find_from = chain_find and no_cache = True and q = 1 and w' = ?w'] n r by blast
  then have "\<not> u_no_iter_next (heap ?w' ! 1)" by simp
  moreover have "u_no_iter_next P2" by (simp add: P2_def linked_page_def)
  ultimately show ?thesis using l n by blast
qed

subsection \<open>The page iterator\<close>

lemma except_IndexError_None_iff:
  "except_IndexError (Some e) = None \<longleftrightarrow> (\<exists>msg. e = IndexError msg)"
  by (cases e) (simp_all add: except_IndexError_def)

lemma page_walk_imp_iter:
  "page_walk find_from w p ps w' \<Longrightarrow> PaginatedIterator_iter find_from w p = Some (ps, None, w')"
proof (induction rule: page_walk.induct)
  case (last_page w p msg w')
  then show ?case
    by (subst PaginatedIterator_iter.simps) (simp add: except_IndexError_def)
next
  case (more_pages w p n w' ps w'')
  then show ?case
    by (subst PaginatedIterator_iter.simps) simp
qed

lemma iter_imp_page_walk:
  assumes "PaginatedIterator_iter find_from w p = Some r"
  shows "\<forall>ps w'. r = (ps, None, w') \<longrightarrow> page_walk find_from w p ps w'"
proof (rule PaginatedIterator_iter.raw_induct
         [where P = "\<lambda>f w p r. \<forall>ps w'. r = (ps, None, w') \<longrightarrow> page_walk f w p ps w'", OF _ assms])
  fix iter and find_from :: "string \<Rightarrow> string \<Rightarrow> exn + 'a page" and w :: "'a world" and p r
  assume IH: "\<And>f w p r. iter f w p = Some r
                \<Longrightarrow> \<forall>ps w'. r = (ps, None, w') \<longrightarrow> page_walk f w p ps w'"
    and body: "(case next_page find_from w p True of
                  (Inl e, w') \<Rightarrow> Some ([p], except_IndexError (Some e), w')
                | (Inr n, w') \<Rightarrow>
                    Option.bind (iter find_from w' n)
                      (\<lambda>(pages, e, w''). Some (p # pages, e, w''))) = Some r"
  obtain res w1 where np: "next_page find_from w p True = (res, w1)"
    by (cases "next_page find_from w p True")
  show "\<forall>ps w'. r = (ps, None, w') \<longrightarrow> page_walk find_from w p ps w'"
  proof (cases res)
    case (Inl e)
    with np body have r: "r = ([p], except_IndexError (Some e), w1)" by simp
    show ?thesis
    proof (intro allI impI)
      fix ps w' assume "r = (ps, None, w')"
      with r have eqs: "ps = [p]" "w' = w1" and "except_IndexError (Some e) = None" by simp_all
      then obtain msg where "e = IndexError msg" by (auto simp: except_IndexError_None_iff)
      with np Inl have "next_page find_from w p True = (Inl (IndexError msg), w1)" by simp
      then show "page_walk find_from w p ps w'"
        unfolding eqs by (rule page_walk.last_page)
    qed
  next
    case (Inr n)
    with np body obtain pages e w2 where
      sub: "iter find_from w1 n = Some (pages, e, w2)" and r: "r = (p # pages, e, w2)"
      by (auto simp: Option.bind_eq_Some_conv)
    show ?thesis
    proof (intro allI impI)
      fix ps w' assume "r = (ps, None, w')"
      with r have eqs: "ps = p # pages" "w' = w2" and "e = None" by simp_all
      with IH [OF sub] have "page_walk find_from w1 n pages w2" by simp
      with np Inr have "page_walk find_from w p (p # pages) w2"
        by (simp add: page_walk.more_pages)
      then show "page_walk find_from w p ps w'" unfolding eqs .
    qed
  qed
qed

lemma next_page_chain_1:
  "next_page chain_find \<lparr>heap = [P1], requests = []\<rparr> 0 True =
     (Inr 1, \<lparr>heap = [P1, P2], requests = [(''Product'', ''u2'')]\<rparr>)"
  by (simp add: next_page_def truthy_page_def has_next_page_def fetch_page_def
        served_P2 chain_pages linked_page_fields)

lemma next_page_chain_2:
  "next_page chain_find \<lparr>heap = [P1, P2], requests = [(''Product'', ''u2'')]\<rparr> 1 True =
     (Inr 2, \<lparr>heap = [P1, P2, P3], requests = [(''Product'', ''u2''), (''Product'', ''u3'')]\<rparr>)"
  by (simp add: next_page_def truthy_page_def has_next_page_def fetch_page_def
        served_P3 chain_pages linked_page_fields)

lemma next_page_chain_3:
  "next_page chain_find \<lparr>heap = [P1, P2, P3], requests = [(''Product'', ''u2''), (''Product'', ''u3'')]\<rparr> 2 True =
     (Inl (IndexError ''No next page''),
      \<lparr>heap = [P1, P2, P3], requests = [(''Product'', ''u2''), (''Product'', ''u3'')]\<rparr>)"
  by (simp add: next_page_def truthy_page_def has_next_page_def
        chain_pages linked_page_fields)


text \<open>
  Claim C6. The iterator ends without exception with the pages \<open>ps\<close> exactly when \<open>ps\<close>
  is the starting page followed by the results of \<open>next_page(no_cache=True)\<close>, each
  called on the page before it, up to the page on which that call raises \<open>IndexError\<close>.
  On the chain \<open>P1 \<rightarrow> P2 \<rightarrow> P3\<close> the iterator built on \<open>P1\<close> yields the three pages, asks
  the collaborator twice and leaves no page cached.
\<close>

theorem page_iterator_yields_pages_until_no_next_page:
  "(PaginatedIterator_iter find_from w p = Some (ps, None, w') \<longleftrightarrow> page_walk find_from w p ps w')
   \<and> PaginatedIterator_init \<lparr>heap = [P1], requests = []\<rparr> (PaginatedCollectionObj 0) =
       (Inr 0, \<lparr>heap = [P1], requests = []\<rparr>)
   \<and> PaginatedIterator_iter chain_find \<lparr>heap = [P1], requests = []\<rparr> 0 =
       Some ([0, 1, 2], None,
             \<lparr>heap = [P1, P2, P3], requests = [(''Product'', ''u2''), (''Product'', ''u3'')]\<rparr>)"
proof -
  have i: "PaginatedIterator_init \<lparr>heap = [P1], requests = []\<rparr> (PaginatedCollectionObj 0) =
       (Inr 0, \<lparr>heap = [P1], requests = []\<rparr>)"
    by (simp add: PaginatedIterator_init_def P1_def linked_page_def)
  have "page_walk chain_find \<lparr>heap = [P1], requests = []\<rparr> 0 [0, 1, 2]
          \<lparr>heap = [P1, P2, P3], requests = [(''Product'', ''u2''), (''Product'', ''u3'')]\<rparr>"
    by (rule more_pages [OF next_page_chain_1], rule more_pages [OF next_page_chain_2],
        rule last_page [OF next_page_chain_3])
  from page_walk_imp_iter [OF this]
  have c: "PaginatedIterator_iter chain_find \<lparr>heap = [P1], requests = []\<rparr> 0 =
       Some ([0, 1, 2], None,
             \<lparr>heap = [P1, P2, P3], requests = [(''Product'', ''u2''), (''Product'', ''u3'')]\<rparr>)" .
  have g: "PaginatedIterator_iter find_from w p = Some (ps, None, w') \<longleftrightarrow> page_walk find_from w p ps w'"
    using page_walk_imp_iter [of find_from w p ps w'] iter_imp_page_walk [of find_from w p "(ps, None, w')"]
    by blast
  from g i c show ?thesis by (intro conjI)
qed


text \<open>The theorem at the chain: the walk of the three pages, which ends at the page
  without next link.\<close>

theorem page_iterator_yields_pages_until_no_next_page_witness:
  "page_walk chain_find \<lparr>heap = [P1], requests = []\<rparr> 0 [0, 1, 2]
          \<lparr>heap = [P1, P2, P3], requests = [(''Product'', ''u2''), (''Product'', ''u3'')]\<rparr>
   \<and> next_page chain_find \<lparr>heap = [P1, P2, P3], requests = [(''Product'', ''u2''), (''Product'', ''u3'')]\<rparr> 2 True =
     (Inl (IndexError ''No next page''),
      \<lparr>heap = [P1, P2, P3], requests = [(''Product'', ''u2''), (''Product'', ''u3'')]\<rparr>)"
  using page_iterator_yields_pages_until_no_next_page
          [of chain_find "\<lparr>heap = [P1], requests = []\<rparr>" 0 "[0, 1, 2]"
              "\<lparr>heap = [P1, P2, P3], requests = [(''Product'', ''u2''), (''Product'', ''u3'')]\<rparr>"]
        next_page_chain_3
  by blast

subsection \<open>The links of a page\<close>

lemma split2_no_sep: "a \<notin> set x \<Longrightarrow> split [a, b] x = [x]"
  by (induction x) auto

lemma split2_at_sep: "a \<notin> set x \<Longrightarrow> split [a, b] (x @ a # b # rest) = x # split [a, b] rest"
  by (induction x) auto

lemma split2_join:
  "xs \<noteq> [] \<Longrightarrow> \<forall>x\<in>set xs. a \<notin> set x \<Longrightarrow> split [a, b] (join [a, b] xs) = xs"
proof (induction "[a, b]" xs rule: join.induct)
  case 1
  then show ?case by simp
next
  case (2 x)
  then show ?case by (simp add: split2_no_sep)
next
  case (3 x y ys)
  then show ?case by (simp add: split2_at_sep)
qed

lemma link_entry_no_comma: "clean_link l \<Longrightarrow> CHR '','' \<notin> set (link_entry l)"
  by (cases l) (simp add: clean_link_def link_entry_def)

lemma split_link_entry:
  assumes "clean_link (name, url)"
  shows "split ''; '' (link_entry (name, url)) = [''<'' @ url @ ''>'', ''rel=\"'' @ name @ ''\"'']"
proof -
  have 1: "CHR '';'' \<notin> set (''<'' @ url @ ''>'')" using assms by (simp add: clean_link_def)
  have 2: "CHR '';'' \<notin> set (''rel=\"'' @ name @ ''\"'')" using assms by (simp add: clean_link_def)
  have "link_entry (name, url) = (''<'' @ url @ ''>'') @ CHR '';'' # CHR '' '' # (''rel=\"'' @ name @ ''\"'')"
    by (simp add: link_entry_def)
  then show ?thesis
    using split2_at_sep [OF 1, of "CHR '' ''" "''rel=\"'' @ name @ ''\"''"] split2_no_sep [OF 2, of "CHR '' ''"]
    by simp
qed

lemma split_rel:
  assumes "CHR 0x22 \<notin> set name"
  shows "split [CHR 0x22] (''rel=\"'' @ name @ ''\"'') = [''rel='', name, []]"
proof -
  have 1: "CHR 0x22 \<notin> set ''rel=''" by simp
  have "''rel=\"'' @ name @ ''\"'' = ''rel='' @ CHR 0x22 # (name @ CHR 0x22 # [])" by simp
  then show ?thesis
    using split_at_sep [OF 1, of "name @ CHR 0x22 # []"] split_at_sep [OF assms, of "[]"]
    by simp
qed

lemma slice_angle: "slice_1_m1 (''<'' @ url @ ''>'') = url"
  by (simp add: slice_1_m1_def butlast_append)

lemma parse_links_entries:
  "\<forall>l\<in>set links. clean_link l \<Longrightarrow>
     parse_links (map link_entry links) m = Inr (m ++ map_of (rev links))"
proof (induction links arbitrary: m)
  case Nil
  then show ?case by simp
next
  case (Cons l links)
  obtain name url where l: "l = (name, url)" by (cases l)
  with Cons.prems have c: "clean_link (name, url)" by simp
  then have q: "CHR 0x22 \<notin> set name" by (simp add: clean_link_def)
  have "parse_links (link_entry l # map link_entry links) m
          = parse_links (map link_entry links) (m(name \<mapsto> url))"
    unfolding l parse_links.simps split_link_entry [OF c]
    by (simp only: list.case split_rel [OF q] slice_angle)
  also have "\<dots> = Inr (m(name \<mapsto> url) ++ map_of (rev links))"
    using Cons by simp
  also have "m(name \<mapsto> url) ++ map_of (rev links) = m ++ map_of (rev (l # links))"
    by (simp add: l map_add_def fun_eq_iff split: option.splits)
  finally show ?case by simp
qed

text \<open>
  Claim C8, as stated, finds the header under any casing of \<open>Link\<close>. The code asks
  for the keys \<open>"Link"\<close> and \<open>"link"\<close>: a page built from headers with the key \<open>"LINK"\<close>
  has no links, whereas the same value under \<open>"Link"\<close> gives the next link.
\<close>

theorem uppercase_header_key_is_not_found:
  "PaginatedCollection_init (FromItems [1, 2])
      (Some (page_metadata [''LINK'' \<mapsto> ''<u2>; rel=\"next\"''])) None =
     Inr (linked_page [1, 2] [''LINK'' \<mapsto> ''<u2>; rel=\"next\"''] Map.empty True)
   \<and> next_page_url (linked_page [1, 2] [''LINK'' \<mapsto> ''<u2>; rel=\"next\"''] Map.empty True) = None
   \<and> PaginatedCollection_init (FromItems [1, 2])
      (Some (page_metadata [''Link'' \<mapsto> ''<u2>; rel=\"next\"''])) None =
     Inr (linked_page [1, 2] [''Link'' \<mapsto> ''<u2>; rel=\"next\"''] [''next'' \<mapsto> ''u2''] True)"
  by (simp add: PaginatedCollection_init_def base_init_def parse_pagination_def link_header_def
        slice_1_m1_def page_metadata_def empty_dict_def linked_page_def)

text \<open>
  Claim C8, amended. The links are parsed from the value under the key \<open>"Link"\<close> or,
  when that is absent or empty, from the value under \<open>"link"\<close>; when both are absent or
  empty, or there are no headers, the result is the empty dictionary and no error. A
  value of the form \<open><url>; rel="name", ...\<close> parses into the dictionary from the names
  to the URLs, a later entry replacing an earlier one of the same name.
\<close>

theorem pagination_links_from_Link_or_link_header:
  "(headers md = None \<longrightarrow> parse_pagination md = Inr Map.empty)
   \<and> (headers md = Some hs \<and> hs ''Link'' \<in> {None, Some []} \<and> hs ''link'' \<in> {None, Some []}
        \<longrightarrow> parse_pagination md = Inr Map.empty)
   \<and> (headers md = Some hs \<and> hs ''Link'' = Some v \<and> v \<noteq> []
        \<longrightarrow> parse_pagination md = parse_links (split '', '' v) Map.empty)
   \<and> (headers md = Some hs \<and> hs ''Link'' \<in> {None, Some []} \<and> hs ''link'' = Some v \<and> v \<noteq> []
        \<longrightarrow> parse_pagination md = parse_links (split '', '' v) Map.empty)
   \<and> (links \<noteq> [] \<and> (\<forall>l\<in>set links. clean_link l)
        \<longrightarrow> parse_links (split '', '' (link_value links)) Map.empty = Inr (map_of (rev links)))"
proof -
  have a: "headers md = None \<longrightarrow> parse_pagination md = Inr Map.empty"
    by (simp add: parse_pagination_def link_header_def)
  have b: "headers md = Some hs \<and> hs ''Link'' \<in> {None, Some []} \<and> hs ''link'' \<in> {None, Some []}
        \<longrightarrow> parse_pagination md = Inr Map.empty"
    by (auto simp: parse_pagination_def link_header_def)
  have c: "headers md = Some hs \<and> hs ''Link'' = Some v \<and> v \<noteq> []
        \<longrightarrow> parse_pagination md = parse_links (split '', '' v) Map.empty"
    by (simp add: parse_pagination_def link_header_def)
  have d: "headers md = Some hs \<and> hs ''Link'' \<in> {None, Some []} \<and> hs ''link'' = Some v \<and> v \<noteq> []
        \<longrightarrow> parse_pagination md = parse_links (split '', '' v) Map.empty"
    by (auto simp: parse_pagination_def link_header_def)
  have e: "links \<noteq> [] \<and> (\<forall>l\<in>set links. clean_link l)
        \<longrightarrow> parse_links (split '', '' (link_value links)) Map.empty = Inr (map_of (rev links))"
  proof
    assume h: "links \<noteq> [] \<and> (\<forall>l\<in>set links. clean_link l)"
    then have "\<forall>x\<in>set (map link_entry links). CHR '','' \<notin> set x"
      by (auto dest: link_entry_no_comma)
    with h have "split '', '' (link_value links) = map link_entry links"
      unfolding link_value_def by (intro split2_join) simp_all
    with h show "parse_links (split '', '' (link_value links)) Map.empty = Inr (map_of (rev links))"
      by (simp add: parse_links_entries)
  qed
  from a b c d e show ?thesis by (intro conjI)
qed

text \<open>The theorem at headers with the key \<open>"link"\<close> and two links.\<close>

theorem pagination_links_from_Link_or_link_header_witness:
  "headers (page_metadata [''link'' \<mapsto> link_value [(''previous'', ''u1''), (''next'', ''u3'')]])
     = Some [''link'' \<mapsto> link_value [(''previous'', ''u1''), (''next'', ''u3'')]]
   \<and> link_value [(''previous'', ''u1''), (''next'', ''u3'')] = ''<u1>; rel=\"previous\", <u3>; rel=\"next\"''
   \<and> clean_link (''previous'', ''u1'') \<and> clean_link (''next'', ''u3'')
   \<and> parse_pagination (page_metadata [''link'' \<mapsto> link_value [(''previous'', ''u1''), (''next'', ''u3'')]])
     = Inr [''previous'' \<mapsto> ''u1'', ''next'' \<mapsto> ''u3'']"
proof -
  let ?links = "[(''previous'', ''u1''), (''next'', ''u3'')]"
  let ?hs = "[''link'' \<mapsto> link_value ?links]"
  have v: "link_value ?links = ''<u1>; rel=\"previous\", <u3>; rel=\"next\"''"
    by (simp add: link_value_def link_entry_def)
  have h: "headers (page_metadata ?hs) = Some ?hs" by (simp add: page_metadata_def)
  have k: "?hs ''Link'' \<in> {None, Some []}" "?hs ''link'' = Some (link_value ?links)"
    "link_value ?links \<noteq> []"
    by (simp_all add: v)
  have cl: "\<forall>l\<in>set ?links. clean_link l" by (simp add: clean_link_def)
  have ne: "?links \<noteq> []" by simp
  note inst = pagination_links_from_Link_or_link_header
                [where md = "page_metadata ?hs" and hs = ?hs and v = "link_value ?links"
                   and links = ?links]
  from inst h k have "parse_pagination (page_metadata ?hs)
      = parse_links (split '', '' (link_value ?links)) Map.empty" by blast
  moreover from inst ne cl have "parse_links (split '', '' (link_value ?links)) Map.empty
      = Inr (map_of (rev ?links))" by blast
  ultimately have "parse_pagination (page_metadata ?hs) = Inr (map_of (rev ?links))" by simp
  then have "parse_pagination (page_metadata ?hs) = Inr [''previous'' \<mapsto> ''u1'', ''next'' \<mapsto> ''u3'']"
    by simp
  moreover have "clean_link (''previous'', ''u1'')" "clean_link (''next'', ''u3'')"
    using cl by simp_all
  ultimately show ?thesis using h v by (intro conjI)
qed

subsection \<open>Iteration over the items\<close>

lemma except_IndexError_not_IndexError: "except_IndexError e \<noteq> Some (IndexError msg)"
  by (cases e; cases "the e") (auto simp: except_IndexError_def split: exn.splits option.splits)

lemma except_IndexError_eq_None: "except_IndexError e = None \<longleftrightarrow> e = None \<or> (\<exists>msg. e = Some (IndexError msg))"
  by (auto simp: except_IndexError_def split: exn.splits option.splits)

lemma iter_body:
  "PaginatedCollection_iter find_from w p =
     (if u_no_iter_next (heap w ! p) then Some (items (heap w ! p), None, w)
      else case truthy_page (heap w) (u_current_iter (heap w ! p)) of
          Inl e \<Rightarrow> Some (items (heap w ! p), except_IndexError (Some e), w)
        | Inr c \<Rightarrow>
            (case next_page find_from (if c = None then set_current_iter w p p else w) p False of
                  (Inl e, w2) \<Rightarrow> Some (items (heap w ! p), except_IndexError (Some e), w2)
                | (Inr n, w2) \<Rightarrow>
                    Option.bind (PaginatedCollection_iter find_from (set_current_iter w2 p n) n)
                      (\<lambda>(sub, e, w4). Some (items (heap w ! p) @ sub, except_IndexError e, w4))))"
  by (subst PaginatedCollection_iter.simps) (simp add: Let_def cong: sum.case_cong)

lemma item_walk_imp_iter:
  "item_walk find_from w p xs w' \<Longrightarrow> PaginatedCollection_iter find_from w p = Some (xs, None, w')"
proof (induction rule: item_walk.induct)
  case (suppressed w p)
  then show ?case by (subst iter_body) simp
next
  case (no_next_link w p c msg w')
  then show ?case by (subst iter_body) (simp add: except_IndexError_def)
next
  case (advance w p c n w' sub w'')
  then show ?case by (subst iter_body) (simp add: except_IndexError_def)
qed

lemma iter_imp_item_walk:
  assumes "PaginatedCollection_iter find_from w p = Some r"
  shows "(\<forall>msg. fst (snd r) \<noteq> Some (IndexError msg))
       \<and> (\<forall>xs w'. r = (xs, None, w') \<longrightarrow> item_walk find_from w p xs w')"
proof (rule PaginatedCollection_iter.raw_induct
         [where P = "\<lambda>f w p r. (\<forall>msg. fst (snd r) \<noteq> Some (IndexError msg))
                        \<and> (\<forall>xs w'. r = (xs, None, w') \<longrightarrow> item_walk f w p xs w')",
          OF _ assms])
  fix iter and find_from :: "string \<Rightarrow> string \<Rightarrow> exn + 'a page" and w :: "'a world" and p r
  assume IH: "\<And>f w p r. iter f w p = Some r \<Longrightarrow>
                (\<forall>msg. fst (snd r) \<noteq> Some (IndexError msg))
                \<and> (\<forall>xs w'. r = (xs, None, w') \<longrightarrow> item_walk f w p xs w')"
    and raw: "(let own = items (heap w ! p)
      in if u_no_iter_next (heap w ! p) then Some (own, None, w)
         else case truthy_page (heap w) (u_current_iter (heap w ! p)) of
              Inl e \<Rightarrow> Some (own, except_IndexError (Some e), w)
              | Inr c \<Rightarrow>
                  let w1 = if c = None then set_current_iter w p p else w
                  in case next_page find_from w1 p False of
                     (Inl e, w2) \<Rightarrow> Some (own, except_IndexError (Some e), w2)
                     | (Inr n, w2) \<Rightarrow>
                         Option.bind (iter find_from (set_current_iter w2 p n) n)
                          (\<lambda>(sub, e, w4). Some (own @ sub, except_IndexError e, w4))) = Some r"
  have body: "(if u_no_iter_next (heap w ! p) then Some (items (heap w ! p), None, w)
      else case truthy_page (heap w) (u_current_iter (heap w ! p)) of
          Inl e \<Rightarrow> Some (items (heap w ! p), except_IndexError (Some e), w)
        | Inr c \<Rightarrow>
            (case next_page find_from (if c = None then set_current_iter w p p else w) p False of
                  (Inl e, w2) \<Rightarrow> Some (items (heap w ! p), except_IndexError (Some e), w2)
                | (Inr n, w2) \<Rightarrow>
                    Option.bind (iter find_from (set_current_iter w2 p n) n)
                      (\<lambda>(sub, e, w4). Some (items (heap w ! p) @ sub, except_IndexError e, w4)))) = Some r"
    using raw unfolding Let_def .
  let ?goal = "(\<forall>msg. fst (snd r) \<noteq> Some (IndexError msg))
       \<and> (\<forall>xs w'. r = (xs, None, w') \<longrightarrow> item_walk find_from w p xs w')"
  show ?goal
  proof (cases "u_no_iter_next (heap w ! p)")
    case True
    with body have "r = (items (heap w ! p), None, w)" by simp
    with True show ?thesis by (simp add: item_walk.suppressed)
  next
    case flag: False
    show ?thesis
    proof (cases "truthy_page (heap w) (u_current_iter (heap w ! p))")
      case (Inl e)
      with flag body have "r = (items (heap w ! p), except_IndexError (Some e), w)" by simp
      moreover have "\<not> (\<exists>msg. e = IndexError msg)"
        using Inl by (auto simp: truthy_page_def split: option.splits)
      ultimately show ?thesis
        by (simp add: except_IndexError_not_IndexError except_IndexError_eq_None)
    next
      case (Inr c)
      let ?w1 = "if c = None then set_current_iter w p p else w"
      obtain res w2 where np: "next_page find_from ?w1 p False = (res, w2)"
        by (cases "next_page find_from ?w1 p False")
      show ?thesis
      proof (cases res)
        case e: (Inl e)
        with flag Inr np body have r: "r = (items (heap w ! p), except_IndexError (Some e), w2)"
          by simp
        have "\<forall>xs w'. r = (xs, None, w') \<longrightarrow> item_walk find_from w p xs w'"
        proof (intro allI impI)
          fix xs w' assume "r = (xs, None, w')"
          with r have eqs: "xs = items (heap w ! p)" "w' = w2"
            and "except_IndexError (Some e) = None" by simp_all
          then obtain msg where "e = IndexError msg" by (auto simp: except_IndexError_eq_None)
          with np e have "next_page find_from ?w1 p False = (Inl (IndexError msg), w2)" by simp
          from item_walk.no_next_link [OF flag Inr this]
          show "item_walk find_from w p xs w'" unfolding eqs .
        qed
        with r show ?thesis by (simp add: except_IndexError_not_IndexError)
      next
        case n: (Inr n)
        with flag Inr np body obtain sub e w4 where
          sub: "iter find_from (set_current_iter w2 p n) n = Some (sub, e, w4)"
          and r: "r = (items (heap w ! p) @ sub, except_IndexError e, w4)"
          by (auto simp: Option.bind_eq_Some_conv)
        from IH [OF sub] have noIE: "\<forall>msg. e \<noteq> Some (IndexError msg)"
          and walk: "e = None \<longrightarrow> item_walk find_from (set_current_iter w2 p n) n sub w4"
          by simp_all
        have "\<forall>xs w'. r = (xs, None, w') \<longrightarrow> item_walk find_from w p xs w'"
        proof (intro allI impI)
          fix xs w' assume "r = (xs, None, w')"
          with r have eqs: "xs = items (heap w ! p) @ sub" "w' = w4"
            and "except_IndexError e = None" by simp_all
          with noIE have "e = None" by (auto simp: except_IndexError_eq_None)
          with walk have "item_walk find_from (set_current_iter w2 p n) n sub w4" by simp
          moreover from np n have "next_page find_from ?w1 p False = (Inr n, w2)" by simp
          ultimately show "item_walk find_from w p xs w'"
            unfolding eqs using flag Inr by (intro item_walk.advance)
        qed
        with r show ?thesis by (simp add: except_IndexError_not_IndexError)
      qed
    qed
  qed
qed

lemma init_default_no_iter_next:
  "PaginatedCollection_init obj md_kw kw = Inr pg
     \<Longrightarrow> u_no_iter_next pg = (case kw of None \<Rightarrow> True | Some b \<Rightarrow> b)"
  by (auto simp: PaginatedCollection_init_def split: sum.splits prod.splits if_splits)

lemma init_P1: "PaginatedCollection_init (FromItems [1, 2])
      (Some (page_metadata [''Link'' \<mapsto> ''<u2>; rel=\"next\"''])) None = Inr P1"
  using served_P1 [of "[]"] by (simp add: chain_find_def served_def)

lemma init_P1_auto_advance: "PaginatedCollection_init
      (FromCollection [1, 2] (page_metadata [''Link'' \<mapsto> ''<u2>; rel=\"next\"''])) None (Some False)
      = Inr (P1\<lparr>u_no_iter_next := False\<rparr>)"
  by (simp add: PaginatedCollection_init_def base_init_def parse_pagination_def link_header_def
        slice_1_m1_def page_metadata_def empty_dict_def dict_update_def P1_def linked_page_def)

lemma chain_item_walk:
  "item_walk chain_find \<lparr>heap = [P1\<lparr>u_no_iter_next := False\<rparr>], requests = []\<rparr> 0 [1, 2, 3, 4, 5]
     \<lparr>heap = [P1\<lparr>u_no_iter_next := False, u_current_iter := Some 1, u_next := Some 1\<rparr>,
              P2\<lparr>u_no_iter_next := False, u_previous := Some 0, u_current_iter := Some 2, u_next := Some 2\<rparr>,
              P3\<lparr>u_no_iter_next := False, u_previous := Some 1, u_current_iter := Some 2\<rparr>],
      requests = [(''Product'', ''u2''), (''Product'', ''u3'')]\<rparr>"
proof -
  let ?A1 = "P1\<lparr>u_no_iter_next := False\<rparr>"
  let ?w0 = "\<lparr>heap = [?A1], requests = []\<rparr>"
  let ?w2 = "\<lparr>heap = [?A1\<lparr>u_current_iter := Some 0, u_next := Some 1\<rparr>,
                      P2\<lparr>u_no_iter_next := False, u_previous := Some 0\<rparr>],
              requests = [(''Product'', ''u2'')]\<rparr>"
  let ?w3 = "\<lparr>heap = [?A1\<lparr>u_current_iter := Some 1, u_next := Some 1\<rparr>,
                      P2\<lparr>u_no_iter_next := False, u_previous := Some 0\<rparr>],
              requests = [(''Product'', ''u2'')]\<rparr>"
  let ?w5 = "\<lparr>heap = [?A1\<lparr>u_current_iter := Some 1, u_next := Some 1\<rparr>,
                      P2\<lparr>u_no_iter_next := False, u_previous := Some 0,
                         u_current_iter := Some 1, u_next := Some 2\<rparr>,
                      P3\<lparr>u_no_iter_next := False, u_previous := Some 1\<rparr>],
              requests = [(''Product'', ''u2''), (''Product'', ''u3'')]\<rparr>"
  let ?w6 = "\<lparr>heap = [?A1\<lparr>u_current_iter := Some 1, u_next := Some 1\<rparr>,
                      P2\<lparr>u_no_iter_next := False, u_previous := Some 0,
                         u_current_iter := Some 2, u_next := Some 2\<rparr>,
                      P3\<lparr>u_no_iter_next := False, u_previous := Some 1\<rparr>],
              requests = [(''Product'', ''u2''), (''Product'', ''u3'')]\<rparr>"
  let ?w7 = "\<lparr>heap = [?A1\<lparr>u_current_iter := Some 1, u_next := Some 1\<rparr>,
                      P2\<lparr>u_no_iter_next := False, u_previous := Some 0,
                         u_current_iter := Some 2, u_next := Some 2\<rparr>,
                      P3\<lparr>u_no_iter_next := False, u_previous := Some 1, u_current_iter := Some 2\<rparr>],
              requests = [(''Product'', ''u2''), (''Product'', ''u3'')]\<rparr>"
  have n1: "next_page chain_find (set_current_iter ?w0 0 0) 0 False = (Inr 1, ?w2)"
    by (simp add: set_current_iter_def next_page_def truthy_page_def has_next_page_def
          fetch_page_def served_P2 chain_pages linked_page_fields)
  have c1: "set_current_iter ?w2 0 1 = ?w3" by (simp add: set_current_iter_def)
  have n2: "next_page chain_find (set_current_iter ?w3 1 1) 1 False = (Inr 2, ?w5)"
    by (simp add: set_current_iter_def next_page_def truthy_page_def has_next_page_def
          fetch_page_def served_P3 chain_pages linked_page_fields)
  have c2: "set_current_iter ?w5 1 2 = ?w6" by (simp add: set_current_iter_def)
  have c3: "set_current_iter ?w6 2 2 = ?w7" by (simp add: set_current_iter_def)
  have n3: "next_page chain_find ?w7 2 False = (Inl (IndexError ''No next page''), ?w7)"
    by (simp add: next_page_def truthy_page_def has_next_page_def chain_pages linked_page_fields)
  have f3: "\<not> u_no_iter_next (heap ?w6 ! 2)" and t3: "truthy_page (heap ?w6) (u_current_iter (heap ?w6 ! 2)) = Inr None"
    by (simp_all add: truthy_page_def chain_pages linked_page_fields)
  have m3: "next_page chain_find (if (None::nat option) = None then set_current_iter ?w6 2 2 else ?w6) 2 False
              = (Inl (IndexError ''No next page''), ?w7)"
    by (simp only: simp_thms if_True c3 n3)
  have k3: "item_walk chain_find ?w6 2 (items (heap ?w6 ! 2)) ?w7"
    by (rule item_walk.no_next_link [OF f3 t3 m3])
  have f2: "\<not> u_no_iter_next (heap ?w3 ! 1)" and t2: "truthy_page (heap ?w3) (u_current_iter (heap ?w3 ! 1)) = Inr None"
    by (simp_all add: truthy_page_def chain_pages linked_page_fields)
  have m2: "next_page chain_find (if (None::nat option) = None then set_current_iter ?w3 1 1 else ?w3) 1 False
              = (Inr 2, ?w5)"
    by (simp only: simp_thms if_True n2)
  have k3': "item_walk chain_find (set_current_iter ?w5 1 2) 2 (items (heap ?w6 ! 2)) ?w7"
    using k3 by (simp only: c2)
  have k2: "item_walk chain_find ?w3 1 (items (heap ?w3 ! 1) @ items (heap ?w6 ! 2)) ?w7"
    by (rule item_walk.advance [OF f2 t2 m2 k3'])
  have f1: "\<not> u_no_iter_next (heap ?w0 ! 0)" and t1: "truthy_page (heap ?w0) (u_current_iter (heap ?w0 ! 0)) = Inr None"
    by (simp_all add: truthy_page_def chain_pages linked_page_fields)
  have m1: "next_page chain_find (if (None::nat option) = None then set_current_iter ?w0 0 0 else ?w0) 0 False
              = (Inr 1, ?w2)"
    by (simp only: simp_thms if_True n1)
  have k2': "item_walk chain_find (set_current_iter ?w2 0 1) 1
               (items (heap ?w3 ! 1) @ items (heap ?w6 ! 2)) ?w7"
    using k2 by (simp only: c1)
  have k1: "item_walk chain_find ?w0 0
              (items (heap ?w0 ! 0) @ items (heap ?w3 ! 1) @ items (heap ?w6 ! 2)) ?w7"
    by (rule item_walk.advance [OF f1 t1 m1 k2'])
  have "items (heap ?w0 ! 0) @ items (heap ?w3 ! 1) @ items (heap ?w6 ! 2) = [1, 2, 3, 4, 5]"
    by (simp add: chain_pages linked_page_fields)
  with k1 have "item_walk chain_find ?w0 0 [1, 2, 3, 4, 5] ?w7" by (simp only:)
  moreover have "?w7 = \<lparr>heap = [P1\<lparr>u_no_iter_next := False, u_current_iter := Some 1, u_next := Some 1\<rparr>,
              P2\<lparr>u_no_iter_next := False, u_previous := Some 0, u_current_iter := Some 2, u_next := Some 2\<rparr>,
              P3\<lparr>u_no_iter_next := False, u_previous := Some 1, u_current_iter := Some 2\<rparr>],
      requests = [(''Product'', ''u2''), (''Product'', ''u3'')]\<rparr>" by simp
  ultimately show ?thesis by (simp only:)
qed

text \<open>
  Claim C5, as stated, makes auto-advance the default. The constructor reads
  \<open>kwargs.pop("no_iter_next", True)\<close>: the page \<open>P1\<close>, built without the keyword, has a next
  link, the collaborator serves \<open>P2\<close> there, and the iteration over \<open>P1\<close> yields the items
  of \<open>P1\<close> only and asks the collaborator nothing.
\<close>

theorem default_page_does_not_auto_advance:
  "PaginatedCollection_init (FromItems [1, 2])
      (Some (page_metadata [''Link'' \<mapsto> ''<u2>; rel=\"next\"''])) None = Inr P1
   \<and> has_next_page P1
   \<and> chain_find ''Product'' ''u2'' = Inr P2
   \<and> PaginatedCollection_iter chain_find \<lparr>heap = [P1], requests = []\<rparr> 0 =
       Some ([1, 2], None, \<lparr>heap = [P1], requests = []\<rparr>)"
proof -
  have "PaginatedCollection_iter chain_find \<lparr>heap = [P1], requests = []\<rparr> 0 =
       Some ([1, 2], None, \<lparr>heap = [P1], requests = []\<rparr>)"
    by (subst iter_body) (simp add: chain_pages linked_page_fields)
  moreover have "has_next_page P1"
    by (simp add: has_next_page_def chain_pages linked_page_fields)
  ultimately show ?thesis using init_P1 served_P2 by simp
qed

text \<open>
  Claim C5, amended. A page built without the keyword \<open>no_iter_next\<close> has auto-advance
  suppressed, and one built with it has the value passed. With \<open>_no_iter_next\<close> set the
  iteration yields the items of the page and leaves the world as it is. In general it
  ends without exception with the items \<open>xs\<close> exactly when \<open>xs\<close> is the walk of the
  specification: the items of the page and, with auto-advance on, those of the pages
  that \<open>next_page()\<close> returns one after the other, up to the page on which it raises
  \<open>IndexError\<close>. On the chain \<open>P1 \<rightarrow> P2 \<rightarrow> P3\<close> with auto-advance on it yields the five
  items and asks the collaborator twice.
\<close>

theorem auto_advance_only_without_no_iter_next:
  "(PaginatedCollection_init obj md_kw None = Inr pg \<longrightarrow> u_no_iter_next pg)
   \<and> (PaginatedCollection_init obj md_kw (Some b) = Inr pg \<longrightarrow> u_no_iter_next pg = b)
   \<and> (u_no_iter_next (heap w ! p)
        \<longrightarrow> PaginatedCollection_iter find_from w p = Some (items (heap w ! p), None, w))
   \<and> (PaginatedCollection_iter find_from w p = Some (xs, None, w') \<longleftrightarrow> item_walk find_from w p xs w')
   \<and> PaginatedCollection_iter chain_find \<lparr>heap = [P1\<lparr>u_no_iter_next := False\<rparr>], requests = []\<rparr> 0 =
       Some ([1, 2, 3, 4, 5], None,
         \<lparr>heap = [P1\<lparr>u_no_iter_next := False, u_current_iter := Some 1, u_next := Some 1\<rparr>,
                  P2\<lparr>u_no_iter_next := False, u_previous := Some 0, u_current_iter := Some 2, u_next := Some 2\<rparr>,
                  P3\<lparr>u_no_iter_next := False, u_previous := Some 1, u_current_iter := Some 2\<rparr>],
          requests = [(''Product'', ''u2''), (''Product'', ''u3'')]\<rparr>)"
proof -
  have a: "PaginatedCollection_init obj md_kw None = Inr pg \<longrightarrow> u_no_iter_next pg"
    using init_default_no_iter_next [of obj md_kw None pg] by simp
  have b: "PaginatedCollection_init obj md_kw (Some b) = Inr pg \<longrightarrow> u_no_iter_next pg = b"
    using init_default_no_iter_next [of obj md_kw "Some b" pg] by simp
  have c: "u_no_iter_next (heap w ! p)
        \<longrightarrow> PaginatedCollection_iter find_from w p = Some (items (heap w ! p), None, w)"
    by (subst iter_body) simp
  have d: "PaginatedCollection_iter find_from w p = Some (xs, None, w') \<longleftrightarrow> item_walk find_from w p xs w'"
    using item_walk_imp_iter [of find_from w p xs w']
      iter_imp_item_walk [of find_from w p "(xs, None, w')"]
    by blast
  note e = item_walk_imp_iter [OF chain_item_walk]
  from a b c d e show ?thesis by (intro conjI)
qed

text \<open>The theorem at \<open>P1\<close>: built with \<open>no_iter_next=False\<close> it walks the chain, built
  without the keyword it yields its own items.\<close>

theorem auto_advance_only_without_no_iter_next_witness:
  "PaginatedCollection_init
      (FromCollection [1, 2] (page_metadata [''Link'' \<mapsto> ''<u2>; rel=\"next\"''])) None (Some False)
      = Inr (P1\<lparr>u_no_iter_next := False\<rparr>)
   \<and> \<not> u_no_iter_next (P1\<lparr>u_no_iter_next := False\<rparr>)
   \<and> u_no_iter_next (heap \<lparr>heap = [P1], requests = []\<rparr> ! 0)
   \<and> PaginatedCollection_iter chain_find \<lparr>heap = [P1], requests = []\<rparr> 0 =
       Some (items (heap \<lparr>heap = [P1], requests = []\<rparr> ! 0), None, \<lparr>heap = [P1], requests = []\<rparr>)
   \<and> item_walk chain_find \<lparr>heap = [P1\<lparr>u_no_iter_next := False\<rparr>], requests = []\<rparr> 0 [1, 2, 3, 4, 5]
         \<lparr>heap = [P1\<lparr>u_no_iter_next := False, u_current_iter := Some 1, u_next := Some 1\<rparr>,
                  P2\<lparr>u_no_iter_next := False, u_previous := Some 0, u_current_iter := Some 2, u_next := Some 2\<rparr>,
                  P3\<lparr>u_no_iter_next := False, u_previous := Some 1, u_current_iter := Some 2\<rparr>],
          requests = [(''Product'', ''u2''), (''Product'', ''u3'')]\<rparr>"
proof -
  let ?A1 = "P1\<lparr>u_no_iter_next := False\<rparr>"
  let ?w0 = "\<lparr>heap = [P1], requests = []\<rparr> :: nat world"
  let ?wa = "\<lparr>heap = [?A1], requests = []\<rparr>"
  let ?wF = "\<lparr>heap = [P1\<lparr>u_no_iter_next := False, u_current_iter := Some 1, u_next := Some 1\<rparr>,
                  P2\<lparr>u_no_iter_next := False, u_previous := Some 0, u_current_iter := Some 2, u_next := Some 2\<rparr>,
                  P3\<lparr>u_no_iter_next := False, u_previous := Some 1, u_current_iter := Some 2\<rparr>],
          requests = [(''Product'', ''u2''), (''Product'', ''u3'')]\<rparr>"
  have i: "PaginatedCollection_init
      (FromCollection [1, 2] (page_metadata [''Link'' \<mapsto> ''<u2>; rel=\"next\"''])) None (Some False)
      = Inr ?A1" by (rule init_P1_auto_advance)
  have f: "u_no_iter_next (heap ?w0 ! 0)" by (simp add: chain_pages linked_page_fields)
  note inst1 = auto_advance_only_without_no_iter_next
     [where obj = "FromCollection [1, 2] (page_metadata [''Link'' \<mapsto> ''<u2>; rel=\"next\"''])"
        and md_kw = None and b = False and pg = ?A1 and w = ?w0 and p = 0 and find_from = chain_find]
  note inst2 = auto_advance_only_without_no_iter_next
     [where w = ?wa and p = 0 and find_from = chain_find and xs = "[1, 2, 3, 4, 5]" and w' = ?wF]
  from inst1 i have 1: "\<not> u_no_iter_next ?A1" by blast
  from inst1 f have 2: "PaginatedCollection_iter chain_find ?w0 0 = Some (items (heap ?w0 ! 0), None, ?w0)"
    by blast
  from inst2 have 3: "item_walk chain_find ?wa 0 [1, 2, 3, 4, 5] ?wF" by blast
  from i 1 f 2 3 show ?thesis by (intro conjI)
qed

end
